theory Spec2Isabelle
  imports Complex_Main
begin

section \<open>Data model\<close>

text \<open>
  The notebooks drive a finite-element library. Coefficient vectors are dense arrays
  indexed by dof; their entries (Python floats) are modelled as real numbers, so the
  theorems about vectors and matrices are statements about the exact arithmetic the code
  spells out. The time arithmetic of the two time loops, which decides how many passes a
  loop makes, is modelled in binary64 with rounding to nearest.
  Exceptions are values of the type \<open>error\<close>.
\<close>

type_synonym vec = "real list"

datatype error =
    DimensionMismatchError
  | SingularSystemError
  | ZeroDivisionError
  | SingularJacobianError
  | InvalidRegionError

definition vscale :: "real \<Rightarrow> vec \<Rightarrow> vec" where
  \<comment> \<open>\<^verbatim>\<open>s * v\<close>\<close>
  "vscale s v = map (\<lambda>x. s * x) v"

definition vadd :: "vec \<Rightarrow> vec \<Rightarrow> error + vec" where
  \<comment> \<open>\<^verbatim>\<open>v + w\<close>; vectors of different size do not combine\<close>
  "vadd v w =
     (if length v = length w then Inr (map (\<lambda>i. v ! i + w ! i) [0..<length v])
      else Inl DimensionMismatchError)"

definition vsub :: "vec \<Rightarrow> vec \<Rightarrow> error + vec" where
  \<comment> \<open>\<^verbatim>\<open>v - w\<close>\<close>
  "vsub v w =
     (if length v = length w then Inr (map (\<lambda>i. v ! i - w ! i) [0..<length v])
      else Inl DimensionMismatchError)"

definition zeros :: "nat \<Rightarrow> vec" where
  "zeros n = replicate n 0"

subsection \<open>Sparse matrices\<close>

text \<open>
  Modelled from the spec: the SparseMatrix of section 3 (the matrix class is the library's).
  A sparse matrix owns a sparsity pattern, the list of its (row, col) positions in storage
  order, and a value array of the same length; \<^verbatim>\<open>AsVector()\<close> is the value array, and
  \<^verbatim>\<open>CreateMatrix()\<close> makes a matrix of the same pattern.
\<close>

record SparseMatrix =
  height :: nat
  width :: nat
  pattern :: "(nat \<times> nat) list"
  vals :: "real list"

definition wf_mat :: "SparseMatrix \<Rightarrow> bool" where
  "wf_mat m \<longleftrightarrow> length (vals m) = length (pattern m)"

definition nze :: "SparseMatrix \<Rightarrow> nat" where
  "nze m = length (pattern m)"

fun index_of :: "'a \<Rightarrow> 'a list \<Rightarrow> nat option" where
  "index_of x [] = None"
| "index_of x (y # ys) =
     (if x = y then Some 0 else (case index_of x ys of None \<Rightarrow> None | Some k \<Rightarrow> Some (Suc k)))"

definition entry :: "SparseMatrix \<Rightarrow> nat \<Rightarrow> nat \<Rightarrow> real" where
  \<comment> \<open>\<^verbatim>\<open>mat[row, col]\<close>: the stored value at the position of (row, col), zero outside the pattern\<close>
  "entry m r c = (case index_of (r, c) (pattern m) of None \<Rightarrow> 0 | Some k \<Rightarrow> vals m ! k)"

definition AsVector :: "SparseMatrix \<Rightarrow> vec" where
  "AsVector m = vals m"

definition CreateMatrix :: "(nat \<Rightarrow> real) \<Rightarrow> SparseMatrix \<Rightarrow> SparseMatrix" where
  \<comment> \<open>\<^verbatim>\<open>m.mat.CreateMatrix()\<close>: a matrix of the same format; its fresh value array has
      the content \<open>junk\<close>, on which nothing may depend\<close>
  "CreateMatrix junk m = m\<lparr>vals := map junk [0..<nze m]\<rparr>"

definition assign_AsVector :: "SparseMatrix \<Rightarrow> vec \<Rightarrow> error + SparseMatrix" where
  \<comment> \<open>\<^verbatim>\<open>mat.AsVector().data = v\<close>: overwrites the value array in place\<close>
  "assign_AsVector m v =
     (if length v = length (vals m) then Inr (m\<lparr>vals := v\<rparr>) else Inl DimensionMismatchError)"

definition build_mstar :: "(nat \<Rightarrow> real) \<Rightarrow> real \<Rightarrow> SparseMatrix \<Rightarrow> SparseMatrix \<Rightarrow> error + SparseMatrix" where
  \<comment> \<open>\<^verbatim>\<open>mstar = m.mat.CreateMatrix()\<close>;
      \<^verbatim>\<open>mstar.AsVector().data = m.mat.AsVector() + dt * a.mat.AsVector()\<close>\<close>
  "build_mstar junk dt m a =
     (let mstar = CreateMatrix junk m in
      case vadd (AsVector m) (vscale dt (AsVector a)) of
        Inl e \<Rightarrow> Inl e
      | Inr v \<Rightarrow> assign_AsVector mstar v)"

definition mscale :: "real \<Rightarrow> SparseMatrix \<Rightarrow> SparseMatrix" where
  \<comment> \<open>\<^verbatim>\<open>s * mat\<close>: the scaled matrix\<close>
  "mscale s m = m\<lparr>vals := vscale s (vals m)\<rparr>"

definition matvec :: "SparseMatrix \<Rightarrow> vec \<Rightarrow> error + vec" where
  \<comment> \<open>\<^verbatim>\<open>mat * v\<close> (the library's product): row \<open>i\<close> is \<open>\<Sum>j. mat[i, j] * v[j]\<close>\<close>
  "matvec m v =
     (if width m = length v
      then Inr (map (\<lambda>i. sum_list (map (\<lambda>j. entry m i j * v ! j) [0..<width m])) [0..<height m])
      else Inl DimensionMismatchError)"

subsection \<open>Linear solver restricted to the free dofs\<close>

text \<open>
  \<^verbatim>\<open>mat.Inverse(freedofs=fes.FreeDofs())\<close> is a call into the library's sparse direct
  solver. The notebook documents the operator it returns as the block matrix with
  \<open>A\<^sub>F\<^sub>F\<^sup>-\<^sup>1\<close> on the free dofs and zero elsewhere. The dense factorization kernel itself
  is a parameter \<open>solver\<close>: it maps the free-free block to its inverse, or to \<open>None\<close>
  when the block is singular.
\<close>

type_synonym dense = "real list list"
type_synonym solver = "dense \<Rightarrow> dense option"

record BaseInverse =
  inv_free :: "bool list"
  inv_fact :: dense

definition free_list :: "bool list \<Rightarrow> nat list" where
  \<comment> \<open>the free dofs, ascending\<close>
  "free_list fd = filter (\<lambda>i. fd ! i) [0..<length fd]"

definition free_block :: "SparseMatrix \<Rightarrow> bool list \<Rightarrow> dense" where
  \<comment> \<open>rows and columns both restricted to the free dofs\<close>
  "free_block m fd = map (\<lambda>i. map (\<lambda>j. entry m i j) (free_list fd)) (free_list fd)"

definition Inverse :: "solver \<Rightarrow> SparseMatrix \<Rightarrow> bool list \<Rightarrow> error + BaseInverse" where
  \<comment> \<open>Modelled from the spec: the LinearSolver of section 4.4 (the factorization lives in
      the finite-element library, outside the repository): a factorization restricted to
      the free-free block, failing with SingularSystemError when that block is singular.\<close>
  "Inverse solver m fd =
     (if height m = length fd \<and> width m = length fd
      then (case solver (free_block m fd) of
              None \<Rightarrow> Inl SingularSystemError
            | Some B \<Rightarrow> Inr \<lparr>inv_free = fd, inv_fact = B\<rparr>)
      else Inl DimensionMismatchError)"

definition apply_inverse :: "BaseInverse \<Rightarrow> vec \<Rightarrow> error + vec" where
  \<comment> \<open>Modelled from the spec: \<^verbatim>\<open>inv * r\<close> solves \<open>A\<^sub>F\<^sub>F x\<^sub>F = r\<^sub>F\<close> on the free dofs; the
      constrained entries of the result are zero (the block formula of the notebook).\<close>
  "apply_inverse iv r =
     (if length r = length (inv_free iv)
      then (let F = free_list (inv_free iv) in
            Inr (map (\<lambda>i. if inv_free iv ! i
                           then (case index_of i F of
                                   None \<Rightarrow> 0
                                 | Some p \<Rightarrow> sum_list (map (\<lambda>q. inv_fact iv ! p ! q * r ! (F ! q))
                                                        [0..<length F]))
                           else 0)
                     [0..<length r]))
      else Inl DimensionMismatchError)"

definition right_inverse :: "dense \<Rightarrow> dense \<Rightarrow> bool" where
  \<comment> \<open>\<open>A B = I\<close> for square arrays of one size: what a correct factorization kernel returns\<close>
  "right_inverse A B \<longleftrightarrow>
     length B = length A
     \<and> (\<forall>p \<in> {..<length A}. length (A ! p) = length A \<and> length (B ! p) = length A)
     \<and> (\<forall>p \<in> {..<length A}. \<forall>q \<in> {..<length A}.
          sum_list (map (\<lambda>l. A ! p ! l * B ! l ! q) [0..<length A]) = (if p = q then 1 else 0))"

subsection \<open>Binary64 arithmetic of the loop time\<close>

text \<open>
  A Python float is an IEEE binary64 number: a finite value, an infinity or a NaN. A finite
  double is kept as the real number it denotes (the sign of zero plays no part in the
  comparisons made here). Every operation rounds its exact result to the nearest double,
  ties to the even significand: 53 significant bits, subnormal spacing \<open>2^-1074\<close>, and
  overflow to an infinity from \<open>2^1024 - 2^970\<close> on.
\<close>

datatype double = Finite real | PInf | MInf | NaN

definition rhe :: "real \<Rightarrow> int" where
  \<comment> \<open>rounding to the nearest integer, ties to even\<close>
  "rhe y = (let f = \<lfloor>y\<rfloor>; r = y - of_int f in
            if r < 1/2 then f else if 1/2 < r then f + 1 else if even f then f else f + 1)"

fun ilog2 :: "nat \<Rightarrow> real \<Rightarrow> int" where
  \<comment> \<open>the binary exponent of a positive number: \<open>2^e \<le> x < 2^(e+1)\<close>, found by halving
      or doubling, at most as often as the first argument allows\<close>
  "ilog2 0 x = 0"
| "ilog2 (Suc k) x =
     (if 2 \<le> x then ilog2 k (x / 2) + 1 else if x < 1 then ilog2 k (2 * x) - 1 else 0)"

definition scale2 :: "real \<Rightarrow> int \<Rightarrow> real" where
  \<comment> \<open>\<open>x * 2^q\<close> for an integer \<open>q\<close>\<close>
  "scale2 x q = (if 0 \<le> q then x * 2 ^ nat q else x / 2 ^ nat (- q))"

definition rnd :: "real \<Rightarrow> double" where
  \<comment> \<open>the double nearest to a real number. The exponent search is cut off beyond
      \<open>2^1100\<close> and below \<open>2^-1100\<close>, where the result is an infinity or zero anyway.\<close>
  "rnd x =
     (if x = 0 then Finite 0
      else (let a = \<bar>x\<bar>;
                q = max (ilog2 1100 a - 52) (- 1074);
                y = scale2 (of_int (rhe (scale2 a (- q)))) q
            in if 2 ^ 1024 \<le> y then (if 0 < x then PInf else MInf)
               else Finite (if 0 < x then y else - y)))"

definition inf_signed :: "real \<Rightarrow> double" where
  \<comment> \<open>an infinity times a finite factor of the given value\<close>
  "inf_signed y = (if 0 < y then PInf else if y < 0 then MInf else NaN)"

fun fmul :: "double \<Rightarrow> double \<Rightarrow> double" where
  \<comment> \<open>\<^verbatim>\<open>x * y\<close> on floats\<close>
  "fmul (Finite x) (Finite y) = rnd (x * y)"
| "fmul (Finite x) PInf = inf_signed x"
| "fmul (Finite x) MInf = inf_signed (- x)"
| "fmul PInf (Finite y) = inf_signed y"
| "fmul MInf (Finite y) = inf_signed (- y)"
| "fmul PInf PInf = PInf"
| "fmul PInf MInf = MInf"
| "fmul MInf PInf = MInf"
| "fmul MInf MInf = PInf"
| "fmul NaN y = NaN"
| "fmul x NaN = NaN"

fun fsub :: "double \<Rightarrow> double \<Rightarrow> double" where
  \<comment> \<open>\<^verbatim>\<open>x - y\<close> on floats\<close>
  "fsub (Finite x) (Finite y) = rnd (x - y)"
| "fsub (Finite x) PInf = MInf"
| "fsub (Finite x) MInf = PInf"
| "fsub PInf (Finite y) = PInf"
| "fsub MInf (Finite y) = MInf"
| "fsub PInf MInf = PInf"
| "fsub MInf PInf = MInf"
| "fsub PInf PInf = NaN"
| "fsub MInf MInf = NaN"
| "fsub NaN y = NaN"
| "fsub x NaN = NaN"

fun fless :: "double \<Rightarrow> double \<Rightarrow> bool" where
  \<comment> \<open>\<^verbatim>\<open>x < y\<close> on floats: exact, and false whenever a NaN takes part\<close>
  "fless (Finite x) (Finite y) = (x < y)"
| "fless (Finite x) PInf = True"
| "fless MInf (Finite y) = True"
| "fless MInf PInf = True"
| "fless x y = False"

subsection \<open>Implicit Euler time stepping (parabolic notebook)\<close>

text \<open>
  The globals the two time loops read: the step size \<^verbatim>\<open>dt\<close>, the load vector
  \<^verbatim>\<open>f.vec\<close> and the matrix \<^verbatim>\<open>a.mat\<close>. The grid function \<^verbatim>\<open>gfu\<close>, the
  counters and the output sinks are the state of the loop. The step size is the value of
  the float \<^verbatim>\<open>dt\<close>; \<open>t0\<close> and \<open>tend\<close> are the values of the arguments, floats or
  Python ints. The variable \<^verbatim>\<open>time\<close> starts as \<open>t0\<close> itself (Python compares an int
  with a float exactly) and is a float from the first pass on.
\<close>

record env =
  dt :: real
  f_vec :: vec
  a_mat :: SparseMatrix

record ts_state =
  cnt :: nat
  time :: double
  gfu :: vec
  printed :: "double list"
  gfut :: "vec list"
  vtk :: "(double \<times> vec) list"

definition loop_time :: "env \<Rightarrow> nat \<Rightarrow> double" where
  \<comment> \<open>\<^verbatim>\<open>cnt * dt\<close>: the counter is converted to a float, then the floats are multiplied.
      (Python raises OverflowError when the counter does not fit a float, which takes more
      than \<open>10^308\<close> passes; here the conversion overflows to infinity, which ends the loop
      at the same pass.)\<close>
  "loop_time E c = fmul (rnd (real c)) (Finite (dt E))"

definition loop_guard :: "env \<Rightarrow> real \<Rightarrow> double \<Rightarrow> bool" where
  \<comment> \<open>\<^verbatim>\<open>time < tend - 0.5 * dt\<close>: the product and the difference are rounded, the
      comparison is exact\<close>
  "loop_guard E tend x \<longleftrightarrow> fless x (fsub (rnd tend) (fmul (Finite 0.5) (Finite (dt E))))"

definition residual :: "env \<Rightarrow> vec \<Rightarrow> error + vec" where
  \<comment> \<open>\<^verbatim>\<open>res = dt * f.vec - dt * a.mat * gfu.vec\<close>, read as Python parses it:
      \<^verbatim>\<open>(dt * f.vec) - ((dt * a.mat) * gfu.vec)\<close>\<close>
  "residual E u =
     (case matvec (mscale (dt E) (a_mat E)) u of
        Inl e \<Rightarrow> Inl e
      | Inr Au \<Rightarrow> vsub (vscale (dt E) (f_vec E)) Au)"

definition euler_update :: "env \<Rightarrow> BaseInverse \<Rightarrow> vec \<Rightarrow> error + vec" where
  \<comment> \<open>\<^verbatim>\<open>res = dt * f.vec - dt * a.mat * gfu.vec\<close>; \<^verbatim>\<open>gfu.vec.data += invmstar * res\<close>\<close>
  "euler_update E invmstar u =
     (case residual E u of
        Inl e \<Rightarrow> Inl e
      | Inr res \<Rightarrow>
          (case apply_inverse invmstar res of
             Inl e \<Rightarrow> Inl e
           | Inr delta \<Rightarrow> vadd u delta))"

definition sample_interval :: "real \<Rightarrow> real \<Rightarrow> int \<Rightarrow> error + int" where
  \<comment> \<open>\<^verbatim>\<open>sample_int = int(floor(tend / dt / nsamples)+1)\<close>, with the quotient taken in
      exact arithmetic; it selects the passes whose snapshot is kept\<close>
  "sample_interval tend h nsamples =
     (if h = 0 \<or> nsamples = 0 then Inl ZeroDivisionError
      else Inr (\<lfloor>tend / h / real_of_int nsamples\<rfloor> + 1))"

definition TimeStepping_body :: "env \<Rightarrow> BaseInverse \<Rightarrow> int \<Rightarrow> ts_state \<Rightarrow> error + ts_state" where
  \<comment> \<open>one pass through the body of the loop of \<^verbatim>\<open>TimeStepping\<close>\<close>
  "TimeStepping_body E invmstar sample_int s =
     (case euler_update E invmstar (gfu s) of
        Inl e \<Rightarrow> Inl e
      | Inr u \<Rightarrow>
          if sample_int = 0 then Inl ZeroDivisionError
          else Inr (s\<lparr>gfu := u,
                      printed := printed s @ [time s],
                      gfut := (if int (cnt s) mod sample_int = 0 then gfut s @ [u] else gfut s),
                      cnt := cnt s + 1,
                      time := loop_time E (cnt s + 1)\<rparr>))"

partial_function (option) TimeStepping_loop ::
  "env \<Rightarrow> BaseInverse \<Rightarrow> real \<Rightarrow> int \<Rightarrow> ts_state \<Rightarrow> (error + ts_state) option" where
  "TimeStepping_loop E invmstar tend sample_int s =
     (if loop_guard E tend (time s)
      then (case TimeStepping_body E invmstar sample_int s of
              Inl e \<Rightarrow> Some (Inl e)
            | Inr s' \<Rightarrow> TimeStepping_loop E invmstar tend sample_int s')
      else Some (Inr s))"

definition TimeStepping ::
  "env \<Rightarrow> ('c \<Rightarrow> vec \<Rightarrow> vec) \<Rightarrow> vec \<Rightarrow> BaseInverse \<Rightarrow> 'c option \<Rightarrow> real \<Rightarrow> real \<Rightarrow> int
     \<Rightarrow> (error + ts_state) option" where
  \<comment> \<open>\<^verbatim>\<open>TimeStepping(invmstar, initial_cond, t0, tend, nsamples)\<close>; \<open>Set\<close> is the
      library's interpolation \<^verbatim>\<open>gfu.Set\<close>, \<open>gfu0\<close> the global grid function at the call.
      The result carries the returned \<^verbatim>\<open>gfut\<close> and the final global \<^verbatim>\<open>gfu\<close>. The
      one print of \<^verbatim>\<open>sample_int\<close> and the calls of \<^verbatim>\<open>scene.Redraw()\<close> leave no trace
      in the state.\<close>
  "TimeStepping E Set gfu0 invmstar initial_cond t0 tend nsamples =
     (let u0 = (case initial_cond of None \<Rightarrow> gfu0 | Some c \<Rightarrow> Set c gfu0) in
      case sample_interval tend (dt E) nsamples of
        Inl e \<Rightarrow> Some (Inl e)
      | Inr sample_int \<Rightarrow>
          TimeStepping_loop E invmstar tend sample_int
            \<lparr>cnt = 0, time = Finite t0, gfu = u0, printed = [], gfut = [u0], vtk = []\<rparr>)"

definition TimeSteppingVTK_body :: "env \<Rightarrow> BaseInverse \<Rightarrow> int \<Rightarrow> ts_state \<Rightarrow> error + ts_state" where
  \<comment> \<open>one pass through the body of the loop of \<^verbatim>\<open>TimeSteppingVTK\<close>: the counter and
      the time advance first\<close>
  "TimeSteppingVTK_body E invmstar sample_int s =
     (let c = cnt s + 1; t = loop_time E c in
      case euler_update E invmstar (gfu s) of
        Inl e \<Rightarrow> Inl e
      | Inr u \<Rightarrow>
          if sample_int = 0 then Inl ZeroDivisionError
          else Inr (s\<lparr>cnt := c,
                      time := t,
                      gfu := u,
                      printed := printed s @ [t],
                      vtk := (if int c mod sample_int = 0 then vtk s @ [(t, u)] else vtk s)\<rparr>))"

partial_function (option) TimeSteppingVTK_loop ::
  "env \<Rightarrow> BaseInverse \<Rightarrow> real \<Rightarrow> int \<Rightarrow> ts_state \<Rightarrow> (error + ts_state) option" where
  "TimeSteppingVTK_loop E invmstar tend sample_int s =
     (if loop_guard E tend (time s)
      then (case TimeSteppingVTK_body E invmstar sample_int s of
              Inl e \<Rightarrow> Some (Inl e)
            | Inr s' \<Rightarrow> TimeSteppingVTK_loop E invmstar tend sample_int s')
      else Some (Inr s))"

definition TimeSteppingVTK ::
  "env \<Rightarrow> ('c \<Rightarrow> vec \<Rightarrow> vec) \<Rightarrow> vec \<Rightarrow> BaseInverse \<Rightarrow> 'c option \<Rightarrow> real \<Rightarrow> real \<Rightarrow> int
     \<Rightarrow> (error + ts_state) option" where
  \<comment> \<open>\<^verbatim>\<open>TimeSteppingVTK(invmstar, initial_cond, t0, tend, nsamples, filename)\<close>; the
      file name only selects the output file\<close>
  "TimeSteppingVTK E Set gfu0 invmstar initial_cond t0 tend nsamples =
     (let u0 = (case initial_cond of None \<Rightarrow> gfu0 | Some c \<Rightarrow> Set c gfu0) in
      case sample_interval tend (dt E) nsamples of
        Inl e \<Rightarrow> Some (Inl e)
      | Inr sample_int \<Rightarrow>
          TimeSteppingVTK_loop E invmstar tend sample_int
            \<lparr>cnt = 0, time = Finite t0, gfu = u0, printed = [], gfut = [],
               vtk = [(Finite t0, u0)]\<rparr>)"

fun iterate :: "nat \<Rightarrow> ('s \<Rightarrow> error + 's) \<Rightarrow> 's \<Rightarrow> error + 's" where
  \<comment> \<open>\<open>n\<close> passes through a loop body, stopping at the first exception\<close>
  "iterate 0 body s = Inr s"
| "iterate (Suc n) body s = (case body s of Inl e \<Rightarrow> Inl e | Inr s' \<Rightarrow> iterate n body s')"

subsection \<open>Inhomogeneous Dirichlet data (Poisson and surface notebooks)\<close>

definition solve_dirichlet :: "solver \<Rightarrow> SparseMatrix \<Rightarrow> bool list \<Rightarrow> vec \<Rightarrow> vec \<Rightarrow> error + vec" where
  \<comment> \<open>\<^verbatim>\<open>r = f.vec - a.mat * gfu.vec\<close>;
      \<^verbatim>\<open>gfu.vec.data += a.mat.Inverse(freedofs=fes.FreeDofs()) * r\<close>,
      with \<open>u\<close> the vector \<^verbatim>\<open>gfu.vec\<close> that \<^verbatim>\<open>gfu.Set(g, BND)\<close> has filled\<close>
  "solve_dirichlet solver A fd f u =
     (case matvec A u of
        Inl e \<Rightarrow> Inl e
      | Inr Au \<Rightarrow>
     (case vsub f Au of
        Inl e \<Rightarrow> Inl e
      | Inr r \<Rightarrow>
     (case Inverse solver A fd of
        Inl e \<Rightarrow> Inl e
      | Inr iv \<Rightarrow>
     (case apply_inverse iv r of
        Inl e \<Rightarrow> Inl e
      | Inr d \<Rightarrow> vadd u d))))"

subsection \<open>Function spaces and their dof classification\<close>

text \<open>
  The spaces \<^verbatim>\<open>H1(mesh, order=..., dirichlet=...)\<close> and \<^verbatim>\<open>VectorH1(mesh, order=...)\<close>
  are built by the library. The basis construction (how many dofs a mesh carries at a
  given order, which dofs belong to which element and to which boundary facet) is the
  parameter \<open>basis\<close>; the \<^verbatim>\<open>dirichlet\<close> string \<^verbatim>\<open>"left|right"\<close> is the list of its
  region names.
\<close>

record Mesh =
  elements :: "nat list list"
  facets :: "(string \<times> nat list) list"

record layout =
  lay_ndof :: nat
  lay_el_dofs :: "nat list list"
  lay_facet_dofs :: "nat list list"

record FunctionSpace =
  ndof :: nat
  el_dofs :: "nat list list"
  free :: "bool list"

definition constrained_dofs :: "Mesh \<Rightarrow> layout \<Rightarrow> string list \<Rightarrow> nat list" where
  \<comment> \<open>the dofs located on the boundary facets whose region is named in \<open>dirichlet\<close>\<close>
  "constrained_dofs mesh L dirichlet =
     concat (map snd (filter (\<lambda>(name, dofs). name \<in> set dirichlet)
                        (zip (map fst (facets mesh)) (lay_facet_dofs L))))"

definition H1 :: "(Mesh \<Rightarrow> nat \<Rightarrow> layout) \<Rightarrow> Mesh \<Rightarrow> nat \<Rightarrow> string list \<Rightarrow> error + FunctionSpace" where
  \<comment> \<open>Modelled from the spec: the FunctionSpace of section 4.1 (the space classes live in
      the finite-element library, outside the repository): from a mesh, an order and the
      constrained regions, a dof count, an element-to-dof map and a free flag per dof;
      InvalidRegionError when a named region is not a boundary tag of the mesh.\<close>
  "H1 basis mesh order dirichlet =
     (if \<exists>r \<in> set dirichlet. r \<notin> set (map fst (facets mesh)) then Inl InvalidRegionError
      else (let L = basis mesh order in
            Inr \<lparr>ndof = lay_ndof L,
                 el_dofs = lay_el_dofs L,
                 free = map (\<lambda>d. d \<notin> set (constrained_dofs mesh L dirichlet)) [0..<lay_ndof L]\<rparr>))"

definition VectorH1 ::
  "(Mesh \<Rightarrow> nat \<Rightarrow> layout) \<Rightarrow> nat \<Rightarrow> Mesh \<Rightarrow> nat \<Rightarrow> string list \<Rightarrow> error + FunctionSpace" where
  \<comment> \<open>Modelled from the spec: a vector-valued space replicates the scalar dof layout
      \<open>d\<close> times, block after block.\<close>
  "VectorH1 basis d mesh order dirichlet =
     (case H1 basis mesh order dirichlet of
        Inl e \<Rightarrow> Inl e
      | Inr fes \<Rightarrow>
          Inr \<lparr>ndof = d * ndof fes,
               el_dofs = map (\<lambda>el. concat (map (\<lambda>k. map (\<lambda>j. k * ndof fes + j) el) [0..<d]))
                             (el_dofs fes),
               free = concat (replicate d (free fes))\<rparr>)"

definition FreeDofs :: "FunctionSpace \<Rightarrow> bool list" where
  \<comment> \<open>\<^verbatim>\<open>fes.FreeDofs()\<close>: \<^verbatim>\<open>FreeDofs[dof]\<close> is True if and only if \<open>dof\<close> is free\<close>
  "FreeDofs fes = free fes"

definition constrained_list :: "bool list \<Rightarrow> nat list" where
  \<comment> \<open>the constrained (Dirichlet) dofs, ascending\<close>
  "constrained_list fd = filter (\<lambda>i. \<not> fd ! i) [0..<length fd]"

subsection \<open>Mean curvature flow by Dziuk's method\<close>

text \<open>
  Forms are kept as the expressions the notebook writes. Assembling them (the element
  loop with its quadrature, on the geometry displaced by the deformation it is given) is
  the library's work and enters as the parameters \<open>asm_bf\<close> and \<open>asm_lf\<close>.
\<close>

datatype cf =
    Trial
  | Test
  | Coef string
  | Grad cf
  | Trace cf
  | Mult cf cf
  | Plus cf cf
  | Scale real cf
  | InnerProduct cf cf

datatype VorB = VOL | BND | BBND

record integrator =
  integrand :: cf
  vb :: VorB
  deformed :: bool

definition M_form :: "real \<Rightarrow> integrator list" where
  \<comment> \<open>\<^verbatim>\<open>M += (X*Y + tau*InnerProduct(grad(X).Trace(), grad(Y).Trace()))*ds(deformation=dXh)\<close>\<close>
  "M_form tau' =
     [\<lparr>integrand = Plus (Mult Trial Test)
                         (Scale tau' (InnerProduct (Trace (Grad Trial)) (Trace (Grad Test)))),
       vb = BND, deformed = True\<rparr>]"

definition l_form :: "integrator list" where
  \<comment> \<open>\<^verbatim>\<open>l += CF((x,y,z))*Y*ds(deformation=dXh)\<close>\<close>
  "l_form = [\<lparr>integrand = Mult (Coef ''(x,y,z)'') Test, vb = BND, deformed = True\<rparr>]"

datatype event =
    Print real
  | AssembleM "integrator list" vec
  | AssembleL "integrator list" vec
  | UpdateInv
  | Solve
  | SetDeformation vec
  | Redraw

record mcf_params =
  tau :: real
  Tend :: real
  Idh :: vec
  asm_bf :: "integrator list \<Rightarrow> vec \<Rightarrow> error + SparseMatrix"
  asm_lf :: "integrator list \<Rightarrow> vec \<Rightarrow> error + vec"
  mcf_solver :: solver

record mcf_state =
  t_now :: real
  i_now :: nat
  Xh :: vec
  dXh :: vec
  M_mat :: SparseMatrix
  l_vec :: vec
  Minv :: BaseInverse
  events :: "event list"

definition bindE :: "error + 'a \<Rightarrow> ('a \<Rightarrow> error + 'b) \<Rightarrow> error + 'b" where
  \<comment> \<open>sequencing: an exception ends the pass\<close>
  "bindE m f = (case m of Inl e \<Rightarrow> Inl e | Inr x \<Rightarrow> f x)"

definition print_t :: "mcf_state \<Rightarrow> mcf_state" where
  \<comment> \<open>\<^verbatim>\<open>print ("\rt=", t, end="")\<close>\<close>
  "print_t s = s\<lparr>events := events s @ [Print (t_now s)]\<rparr>"

definition M_Assemble :: "mcf_params \<Rightarrow> mcf_state \<Rightarrow> error + mcf_state" where
  \<comment> \<open>\<^verbatim>\<open>M.Assemble()\<close>: integrates over the geometry displaced by the current \<^verbatim>\<open>dXh\<close>\<close>
  "M_Assemble P s =
     (case asm_bf P (M_form (tau P)) (dXh s) of
        Inl e \<Rightarrow> Inl e
      | Inr A \<Rightarrow> Inr (s\<lparr>M_mat := A, events := events s @ [AssembleM (M_form (tau P)) (dXh s)]\<rparr>))"

definition l_Assemble :: "mcf_params \<Rightarrow> mcf_state \<Rightarrow> error + mcf_state" where
  \<comment> \<open>\<^verbatim>\<open>l.Assemble()\<close>\<close>
  "l_Assemble P s =
     (case asm_lf P l_form (dXh s) of
        Inl e \<Rightarrow> Inl e
      | Inr b \<Rightarrow> Inr (s\<lparr>l_vec := b, events := events s @ [AssembleL l_form (dXh s)]\<rparr>))"

definition Minv_Update :: "mcf_params \<Rightarrow> mcf_state \<Rightarrow> error + mcf_state" where
  \<comment> \<open>\<^verbatim>\<open>Minv.Update()\<close>: factorizes the current values of \<^verbatim>\<open>M.mat\<close> again, with the
      free dofs the inverse was created with\<close>
  "Minv_Update P s =
     (case Inverse (mcf_solver P) (M_mat s) (inv_free (Minv s)) of
        Inl e \<Rightarrow> Inl e
      | Inr iv \<Rightarrow> Inr (s\<lparr>Minv := iv, events := events s @ [UpdateInv]\<rparr>))"

definition solve_Xh :: "mcf_state \<Rightarrow> error + mcf_state" where
  \<comment> \<open>\<^verbatim>\<open>Xh.vec.data = Minv*l.vec\<close>\<close>
  "solve_Xh s =
     (case apply_inverse (Minv s) (l_vec s) of
        Inl e \<Rightarrow> Inl e
      | Inr X \<Rightarrow> Inr (s\<lparr>Xh := X, events := events s @ [Solve]\<rparr>))"

definition set_dXh :: "mcf_params \<Rightarrow> mcf_state \<Rightarrow> error + mcf_state" where
  \<comment> \<open>\<^verbatim>\<open>dXh.vec.data = Xh.vec - Idh.vec\<close>\<close>
  "set_dXh P s =
     (case vsub (Xh s) (Idh P) of
        Inl e \<Rightarrow> Inl e
      | Inr d \<Rightarrow> Inr (s\<lparr>dXh := d, events := events s @ [SetDeformation d]\<rparr>))"

definition redraw :: "mcf_state \<Rightarrow> mcf_state" where
  \<comment> \<open>\<^verbatim>\<open>if i % 10 == 0: scene.Redraw()\<close>\<close>
  "redraw s = (if i_now s mod 10 = 0 then s\<lparr>events := events s @ [Redraw]\<rparr> else s)"

definition advance :: "mcf_params \<Rightarrow> mcf_state \<Rightarrow> mcf_state" where
  \<comment> \<open>\<^verbatim>\<open>t += tau\<close>; \<^verbatim>\<open>i += 1\<close>\<close>
  "advance P s = s\<lparr>t_now := t_now s + tau P, i_now := i_now s + 1\<rparr>"

definition mcf_body :: "mcf_params \<Rightarrow> mcf_state \<Rightarrow> error + mcf_state" where
  \<comment> \<open>one pass through the body of the evolution loop (\<^verbatim>\<open>with TaskManager()\<close> only
      lets the library use several threads)\<close>
  "mcf_body P s =
     bindE (M_Assemble P (print_t s)) (\<lambda>s1.
     bindE (l_Assemble P s1) (\<lambda>s2.
     bindE (Minv_Update P s2) (\<lambda>s3.
     bindE (solve_Xh s3) (\<lambda>s4.
     bindE (set_dXh P s4) (\<lambda>s5.
     Inr (advance P (redraw s5)))))))"

partial_function (option) mcf_loop :: "mcf_params \<Rightarrow> mcf_state \<Rightarrow> (error + mcf_state) option" where
  "mcf_loop par s =
     (if t_now s \<le> Tend par - tau par
      then (case mcf_body par s of
              Inl e \<Rightarrow> Some (Inl e)
            | Inr s' \<Rightarrow> mcf_loop par s')
      else Some (Inr s))"

definition mcf_setup :: "mcf_params \<Rightarrow> bool list \<Rightarrow> vec \<Rightarrow> vec \<Rightarrow> error + mcf_state" where
  \<comment> \<open>the cells before the loop: \<^verbatim>\<open>M.Assemble()\<close>,
      \<^verbatim>\<open>Minv = M.mat.Inverse(V.FreeDofs(), inverse="sparsecholesky")\<close>, \<^verbatim>\<open>l.Assemble()\<close>,
      \<^verbatim>\<open>i = 0\<close>, \<^verbatim>\<open>t = 0\<close>; \<open>fd\<close> is \<^verbatim>\<open>V.FreeDofs()\<close>\<close>
  "mcf_setup P fd X0 d0 =
     (case asm_bf P (M_form (tau P)) d0 of
        Inl e \<Rightarrow> Inl e
      | Inr A \<Rightarrow>
     (case Inverse (mcf_solver P) A fd of
        Inl e \<Rightarrow> Inl e
      | Inr iv \<Rightarrow>
     (case asm_lf P l_form d0 of
        Inl e \<Rightarrow> Inl e
      | Inr b \<Rightarrow>
          Inr \<lparr>t_now = 0, i_now = 0, Xh = X0, dXh = d0, M_mat = A, l_vec = b, Minv = iv,
               events = [AssembleM (M_form (tau P)) d0, AssembleL l_form d0]\<rparr>)))"

text \<open>
  A monitor for the event log: it follows the current deformation and remembers whether
  the matrix, the load vector and the factorization were made from it. A solve is
  admissible only when all three are.
\<close>

record monitor =
  cur_def :: vec
  M_fresh :: bool
  l_fresh :: bool
  inv_fresh :: bool

fun observe :: "real \<Rightarrow> monitor \<Rightarrow> event \<Rightarrow> monitor option" where
  "observe tau' m (AssembleM form d) =
     Some (m\<lparr>M_fresh := (d = cur_def m \<and> form = M_form tau'), inv_fresh := False\<rparr>)"
| "observe tau' m (AssembleL form d) = Some (m\<lparr>l_fresh := (d = cur_def m \<and> form = l_form)\<rparr>)"
| "observe tau' m UpdateInv = Some (m\<lparr>inv_fresh := M_fresh m\<rparr>)"
| "observe tau' m Solve = (if M_fresh m \<and> l_fresh m \<and> inv_fresh m then Some m else None)"
| "observe tau' m (SetDeformation d) =
     Some \<lparr>cur_def = d, M_fresh = False, l_fresh = False, inv_fresh = False\<rparr>"
| "observe tau' m (Print x) = Some m"
| "observe tau' m Redraw = Some m"

fun monitor_run :: "real \<Rightarrow> monitor \<Rightarrow> event list \<Rightarrow> monitor option" where
  "monitor_run tau' m [] = Some m"
| "monitor_run tau' m (e # es) =
     (case observe tau' m e of None \<Rightarrow> None | Some m' \<Rightarrow> monitor_run tau' m' es)"

definition stale :: "vec \<Rightarrow> monitor" where
  \<comment> \<open>the monitor right after the deformation became \<open>d\<close>: nothing assembled from it yet\<close>
  "stale d = \<lparr>cur_def = d, M_fresh = False, l_fresh = False, inv_fresh = False\<rparr>"

subsection \<open>Comparing the two time loops\<close>

definition same_solution :: "ts_state \<Rightarrow> ts_state \<Rightarrow> bool" where
  \<comment> \<open>two loop states that agree on counter, time and solution vector; the output sinks may differ\<close>
  "same_solution s1 s2 \<longleftrightarrow> cnt s1 = cnt s2 \<and> time s1 = time s2 \<and> gfu s1 = gfu s2"

subsection \<open>A two-dof example: dof 0 free, dof 1 constrained\<close>

definition ex_m :: SparseMatrix where
  "ex_m = \<lparr>height = 2, width = 2, pattern = [(0,0), (0,1), (1,0), (1,1)], vals = [1, 0, 0, 1]\<rparr>"

definition ex_a :: SparseMatrix where
  "ex_a = \<lparr>height = 2, width = 2, pattern = [(0,0), (0,1), (1,0), (1,1)], vals = [2, 1, 1, 2]\<rparr>"

definition ex_env :: env where
  "ex_env = \<lparr>dt = 1/2, f_vec = [1, 0], a_mat = ex_a\<rparr>"

definition ex_solver :: solver where
  "ex_solver B = (if B = [[2]] then Some [[1/2]] else None)"

definition ex_inv :: BaseInverse where
  "ex_inv = \<lparr>inv_free = [True, False], inv_fact = [[1/2]]\<rparr>"

definition ex_Set :: "vec \<Rightarrow> vec \<Rightarrow> vec" where
  \<comment> \<open>an interpolation that takes the coefficient vector as it is given\<close>
  "ex_Set c u = c"

definition cx_env :: env where
  \<comment> \<open>zero data with the step size \<^verbatim>\<open>dt = 0.001\<close>, as the double it is\<close>
  "cx_env = \<lparr>dt = 1152921504606847 / 1152921504606846976, f_vec = [0, 0], a_mat = ex_a\<rparr>"

definition cx_tend :: real where
  \<comment> \<open>the end time \<^verbatim>\<open>tend = 0.0085\<close>, as the double it is\<close>
  "cx_tend = 1224979098644775 / 144115188075855872"

subsection \<open>Examples: a four-dof mesh and a two-dof surface evolution\<close>

definition ex_mesh :: Mesh where
  "ex_mesh = \<lparr>elements = [[0, 1, 2], [1, 2, 3]],
              facets = [(''left'', [0, 1]), (''top'', [1, 3]), (''right'', [3, 2]), (''bottom'', [2, 0])]\<rparr>"

definition ex_basis :: "Mesh \<Rightarrow> nat \<Rightarrow> layout" where
  "ex_basis mesh order =
     \<lparr>lay_ndof = 4, lay_el_dofs = elements mesh, lay_facet_dofs = map snd (facets mesh)\<rparr>"

definition ex_basis1 :: "Mesh \<Rightarrow> nat \<Rightarrow> layout" where
  "ex_basis1 mesh order = \<lparr>lay_ndof = 1, lay_el_dofs = [[0]], lay_facet_dofs = []\<rparr>"

definition solver2 :: solver where
  "solver2 B =
     (case B of
        [[a, b], [c, d]] \<Rightarrow>
          if a * d - b * c = 0 then None
          else Some [[d / (a * d - b * c), - b / (a * d - b * c)],
                     [- c / (a * d - b * c), a / (a * d - b * c)]]
      | _ \<Rightarrow> None)"

definition ex_P :: mcf_params where
  "ex_P = \<lparr>tau = 1/4, Tend = 1/2, Idh = [1, 2],
           asm_bf = (\<lambda>form d. case d of
                       [d0, d1] \<Rightarrow> Inr \<lparr>height = 2, width = 2,
                                        pattern = [(0,0), (0,1), (1,0), (1,1)],
                                        vals = [2 + d0, 0, 0, 2 + d1]\<rparr>
                     | _ \<Rightarrow> Inl DimensionMismatchError),
           asm_lf = (\<lambda>form d. case d of
                       [d0, d1] \<Rightarrow> Inr [1 + d0, 2 + d1]
                     | _ \<Rightarrow> Inl DimensionMismatchError),
           mcf_solver = solver2\<rparr>"

definition ex_s0 :: mcf_state where
  "ex_s0 = \<lparr>t_now = 0, i_now = 0, Xh = [1, 2], dXh = [0, 0],
            M_mat = \<lparr>height = 2, width = 2, pattern = [(0,0), (0,1), (1,0), (1,1)], vals = [2, 0, 0, 2]\<rparr>,
            l_vec = [1, 2],
            Minv = \<lparr>inv_free = [True, True], inv_fact = [[1/2, 0], [0, 1/2]]\<rparr>,
            events = [AssembleM (M_form (1/4)) [0, 0], AssembleL l_form [0, 0]]\<rparr>"

definition ex_A1 :: SparseMatrix where
  "ex_A1 = \<lparr>height = 2, width = 2, pattern = [(0,0), (0,1), (1,0), (1,1)], vals = [2, 0, 0, 2]\<rparr>"

definition ex_s1 :: mcf_state where
  "ex_s1 = \<lparr>t_now = 1/4, i_now = 1, Xh = [1/2, 1], dXh = [-1/2, -1], M_mat = ex_A1,
            l_vec = [1, 2],
            Minv = \<lparr>inv_free = [True, True], inv_fact = [[1/2, 0], [0, 1/2]]\<rparr>,
            events = [AssembleM (M_form (1/4)) [0, 0], AssembleL l_form [0, 0],
                      Print 0, AssembleM (M_form (1/4)) [0, 0], AssembleL l_form [0, 0],
                      UpdateInv, Solve, SetDeformation [-1/2, -1], Redraw]\<rparr>"

section \<open>Basic facts\<close>

lemma length_vscale [simp]: "length (vscale s v) = length v"
  by (simp add: vscale_def)

lemma nth_vscale [simp]: "i < length v \<Longrightarrow> vscale s v ! i = s * v ! i"
  by (simp add: vscale_def)

lemma index_of_less: "index_of x xs = Some k \<Longrightarrow> k < length xs"
  by (induction xs arbitrary: k) (auto split: if_splits option.splits)

lemma index_of_None_iff: "index_of x xs = None \<longleftrightarrow> x \<notin> set xs"
  by (induction xs) (auto split: option.splits)

subsection \<open>Vectors and matrices\<close>

lemma vadd_Inr: "length v = length w \<Longrightarrow> vadd v w = Inr (map (\<lambda>i. v ! i + w ! i) [0..<length v])"
  by (simp add: vadd_def)

lemma vsub_Inr: "length v = length w \<Longrightarrow> vsub v w = Inr (map (\<lambda>i. v ! i - w ! i) [0..<length v])"
  by (simp add: vsub_def)

lemma entry_mscale: "wf_mat m \<Longrightarrow> entry (mscale s m) i j = s * entry m i j"
  by (auto simp: entry_def mscale_def wf_mat_def split: option.splits dest: index_of_less)

lemma matvec_Inr:
  "width m = length v \<Longrightarrow>
   matvec m v = Inr (map (\<lambda>i. sum_list (map (\<lambda>j. entry m i j * v ! j) [0..<length v])) [0..<height m])"
  by (simp add: matvec_def)

lemma matvec_mscale:
  assumes "wf_mat m" "width m = length v"
  shows "matvec (mscale s m) v =
         Inr (map (\<lambda>i. s * sum_list (map (\<lambda>j. entry m i j * v ! j) [0..<length v])) [0..<height m])"
proof -
  have "sum_list (map (\<lambda>j. entry (mscale s m) i j * v ! j) [0..<length v])
        = s * sum_list (map (\<lambda>j. entry m i j * v ! j) [0..<length v])" for i
    using assms(1) by (simp add: entry_mscale sum_list_const_mult mult.assoc)
  then show ?thesis using assms(2) by (simp add: matvec_def mscale_def)
qed

lemma residual_Inr:
  assumes "wf_mat (a_mat E)" "width (a_mat E) = length u" "height (a_mat E) = length (f_vec E)"
  shows "residual E u =
         Inr (map (\<lambda>i. dt E * f_vec E ! i
                       - dt E * sum_list (map (\<lambda>j. entry (a_mat E) i j * u ! j) [0..<length u]))
                  [0..<length (f_vec E)])"
  using assms by (simp add: residual_def matvec_mscale vsub_def)

lemma apply_inverse_length:
  "apply_inverse iv r = Inr d \<Longrightarrow> length d = length r"
  by (auto simp: apply_inverse_def Let_def split: if_splits)

lemma apply_inverse_constrained:
  "apply_inverse iv r = Inr d \<Longrightarrow> i < length r \<Longrightarrow> \<not> inv_free iv ! i \<Longrightarrow> d ! i = 0"
  by (auto simp: apply_inverse_def Let_def split: if_splits)

lemma Inverse_free: "Inverse solver m fd = Inr iv \<Longrightarrow> inv_free iv = fd"
  by (auto simp: Inverse_def split: if_splits option.splits)

subsection \<open>The free-dof solve\<close>

lemma index_of_Some_nth: "index_of x xs = Some p \<Longrightarrow> p < length xs \<and> xs ! p = x"
  by (induction xs arbitrary: p) (auto split: if_splits option.splits)

lemma index_of_nth_distinct: "distinct xs \<Longrightarrow> p < length xs \<Longrightarrow> index_of (xs ! p) xs = Some p"
proof (induction xs arbitrary: p)
  case Nil
  then show ?case by simp
next
  case (Cons y ys)
  show ?case
  proof (cases p)
    case 0
    then show ?thesis by simp
  next
    case (Suc p')
    with Cons.prems have "p' < length ys" "ys ! p' \<noteq> y" "distinct ys" by auto
    with Cons.IH [of p'] Suc show ?thesis by simp
  qed
qed

lemma distinct_free_list: "distinct (free_list fd)"
  by (simp add: free_list_def)

lemma set_free_list: "set (free_list fd) = {i. i < length fd \<and> fd ! i}"
  by (auto simp: free_list_def)

lemma free_list_nth: "p < length (free_list fd) \<Longrightarrow> free_list fd ! p < length fd \<and> fd ! (free_list fd ! p)"
  using set_free_list [of fd] nth_mem [of p "free_list fd"] by auto

lemma free_index: 
  assumes "i < length fd" "fd ! i"
  shows "\<exists>p < length (free_list fd). free_list fd ! p = i \<and> index_of i (free_list fd) = Some p"
proof -
  from assms have "i \<in> set (free_list fd)" by (simp add: set_free_list)
  then obtain p where p: "p < length (free_list fd)" "free_list fd ! p = i"
    by (auto simp: in_set_conv_nth)
  with index_of_nth_distinct [OF distinct_free_list p(1)] show ?thesis by auto
qed

lemma sum_list_upt_sum: "sum_list (map f [0..<n]) = (\<Sum>i<n. f i)" for f :: "nat \<Rightarrow> real"
  by (simp add: interv_sum_list_conv_sum_set_nat atLeast0LessThan)

lemma apply_inverse_free:
  assumes "apply_inverse iv r = Inr d" "p < length (free_list (inv_free iv))"
  shows "d ! (free_list (inv_free iv) ! p) =
         (\<Sum>q<length (free_list (inv_free iv)). inv_fact iv ! p ! q * r ! (free_list (inv_free iv) ! q))"
proof -
  let ?F = "free_list (inv_free iv)"
  from assms(1) have len: "length r = length (inv_free iv)"
    by (auto simp: apply_inverse_def split: if_splits)
  from free_list_nth [OF assms(2)] have i: "?F ! p < length (inv_free iv)" "inv_free iv ! (?F ! p)"
    by auto
  have ix: "index_of (?F ! p) ?F = Some p"
    using index_of_nth_distinct [OF distinct_free_list assms(2)] .
  from assms(1) len i ix show ?thesis
    by (auto simp: apply_inverse_def Let_def sum_list_upt_sum)
qed

lemma sum_free_reindex:
  fixes g :: "nat \<Rightarrow> real"
  assumes "\<And>j. j < length fd \<Longrightarrow> \<not> fd ! j \<Longrightarrow> g j = 0"
  shows "(\<Sum>j<length fd. g j) = (\<Sum>l<length (free_list fd). g (free_list fd ! l))"
proof -
  have "(\<Sum>j<length fd. g j) = sum_list (map g [0..<length fd])"
    by (simp add: sum_list_upt_sum)
  also have "\<dots> = sum_list (map (\<lambda>j. if fd ! j then g j else 0) [0..<length fd])"
    using assms by (intro arg_cong [where f = sum_list] map_cong) auto
  also have "\<dots> = sum_list (map g (free_list fd))"
    by (simp add: free_list_def sum_list_map_filter')
  also have "\<dots> = sum_list (map (\<lambda>l. g (free_list fd ! l)) [0..<length (free_list fd)])"
  proof -
    have "map g (free_list fd) = map g (map (\<lambda>l. free_list fd ! l) [0..<length (free_list fd)])"
      by (simp only: map_nth)
    then show ?thesis by (simp add: comp_def)
  qed
  finally show ?thesis by (simp add: sum_list_upt_sum)
qed

lemma free_solve_residual:
  assumes shape: "height A = length fd" "width A = length fd"
    and ri: "right_inverse (free_block A fd) (inv_fact iv)"
    and fr: "inv_free iv = fd"
    and ap: "apply_inverse iv r = Inr d"
    and i: "i < length fd" "fd ! i"
  shows "(\<Sum>j<length fd. entry A i j * d ! j) = r ! i"
proof -
  let ?F = "free_list fd"
  let ?k = "length ?F"
  let ?B = "inv_fact iv"
  from ap fr have len: "length r = length fd" "length d = length fd"
    by (auto simp: apply_inverse_def Let_def split: if_splits)
  from free_index [OF i] obtain p where p: "p < ?k" "?F ! p = i" by blast
  have blk: "free_block A fd ! p' ! l = entry A (?F ! p') (?F ! l)" if "p' < ?k" "l < ?k" for p' l
    using that by (simp add: free_block_def)
  have lenblk: "length (free_block A fd) = ?k" by (simp add: free_block_def)
  from ri have id: "(\<Sum>l<?k. free_block A fd ! p' ! l * ?B ! l ! q) = (if p' = q then 1 else 0)"
    if "p' < ?k" "q < ?k" for p' q
    using that by (simp add: right_inverse_def lenblk sum_list_upt_sum)
  have zero: "entry A i j * d ! j = 0" if "j < length fd" "\<not> fd ! j" for j
    using apply_inverse_constrained [OF ap, of j] that len fr by simp
  have "(\<Sum>j<length fd. entry A i j * d ! j) = (\<Sum>l<?k. entry A i (?F ! l) * d ! (?F ! l))"
    using zero by (rule sum_free_reindex)
  also have "\<dots> = (\<Sum>l<?k. free_block A fd ! p ! l * (\<Sum>q<?k. ?B ! l ! q * r ! (?F ! q)))"
    using apply_inverse_free [OF ap] fr p by (intro sum.cong) (auto simp: blk)
  also have "\<dots> = (\<Sum>l<?k. \<Sum>q<?k. free_block A fd ! p ! l * ?B ! l ! q * r ! (?F ! q))"
    by (simp add: sum_distrib_left mult.assoc)
  also have "\<dots> = (\<Sum>q<?k. \<Sum>l<?k. free_block A fd ! p ! l * ?B ! l ! q * r ! (?F ! q))"
    by (rule sum.swap)
  also have "\<dots> = (\<Sum>q<?k. (if p = q then 1 else 0) * r ! (?F ! q))"
    using id [OF p(1)] by (intro sum.cong) (auto simp: sum_distrib_right [symmetric])
  also have "\<dots> = r ! (?F ! p)"
  proof -
    have "(\<Sum>q<?k. (if p = q then 1 else 0) * r ! (?F ! q)) = (\<Sum>q<?k. if q = p then r ! (?F ! q) else 0)"
      by (intro sum.cong) auto
    then show ?thesis using p(1) by simp
  qed
  finally show ?thesis using p(2) by simp
qed

subsection \<open>Rounding to binary64\<close>

lemma rnd_0 [simp]: "rnd 0 = Finite 0"
  by (simp add: rnd_def)

lemma ilog2_big: "2 ^ k \<le> x \<Longrightarrow> ilog2 k x = int k"
proof (induction k arbitrary: x)
  case 0
  then show ?case by simp
next
  case (Suc k)
  have "(2::real) \<le> 2 ^ Suc k" by (simp add: self_le_power)
  with Suc.prems have "2 \<le> x" by linarith
  moreover have "2 ^ k \<le> x / 2" using Suc.prems by simp
  ultimately show ?case using Suc.IH [of "x / 2"] by simp
qed

lemma rhe_ge_floor: "\<lfloor>y\<rfloor> \<le> rhe y"
  by (simp add: rhe_def Let_def)

lemma rnd_huge:
  assumes "2 ^ 1100 \<le> x"
  shows "rnd x = PInf"
proof -
  have pos: "0 < x" using assms by (smt (verit) zero_less_power)
  have e: "ilog2 1100 \<bar>x\<bar> = 1100" using ilog2_big [of 1100 x] assms pos by simp
  have q: "max (ilog2 1100 \<bar>x\<bar> - 52) (- 1074) = 1048" by (simp add: e)
  have "(2::real) ^ 1100 = 2 ^ 52 * 2 ^ 1048" by (simp add: power_add [symmetric])
  then have "(2::real) ^ 52 \<le> x / 2 ^ 1048" using assms by (simp add: pos_le_divide_eq)
  then have "(2::int) ^ 52 \<le> \<lfloor>x / 2 ^ 1048\<rfloor>" by (simp add: le_floor_iff)
  then have "(2::int) ^ 52 \<le> rhe (x / 2 ^ 1048)" using rhe_ge_floor [of "x / 2 ^ 1048"] by linarith
  then have "(2::real) ^ 52 \<le> of_int (rhe (x / 2 ^ 1048))" by (metis of_int_le_iff of_int_numeral of_int_power)
  then have "(2::real) ^ 52 * 2 ^ 1048 \<le> of_int (rhe (x / 2 ^ 1048)) * 2 ^ 1048"
    by (simp add: mult_right_mono)
  then have big: "(2::real) ^ 1024 \<le> of_int (rhe (x / 2 ^ 1048)) * 2 ^ 1048"
    using power_increasing [of 1024 1100 "2::real"] by (simp add: power_add [symmetric])
  have s1: "scale2 \<bar>x\<bar> (- 1048) = x / 2 ^ 1048" using pos by (simp add: scale2_def)
  have s2: "scale2 y 1048 = y * 2 ^ 1048" for y by (simp add: scale2_def)
  show ?thesis using pos big
    unfolding rnd_def Let_def q s1 s2 by simp
qed


lemma scale2_one_ge: "0 \<le> d \<Longrightarrow> 1 \<le> scale2 1 d"
  by (simp add: scale2_def)

lemma scale2_one_le: "d \<le> 0 \<Longrightarrow> scale2 1 d \<le> 1"
  by (simp add: scale2_def)

lemma scale2_one_pos: "0 < scale2 1 d"
  by (simp add: scale2_def)

lemma scale2_one_Suc: "scale2 1 (d + 1) = 2 * scale2 1 d"
proof -
  consider "0 \<le> d" | "d = - 1" | "d < - 1" by linarith
  then show ?thesis
  proof cases
    case 1
    then have "nat (d + 1) = Suc (nat d)" by simp
    with 1 show ?thesis by (simp add: scale2_def)
  next
    case 2
    then show ?thesis by (simp add: scale2_def)
  next
    case 3
    then have "nat (- d) = Suc (nat (- (d + 1)))" by simp
    with 3 show ?thesis by (simp add: scale2_def)
  qed
qed

lemma ilog2_exact:
  "0 < x \<Longrightarrow> scale2 1 e \<le> x \<Longrightarrow> x < scale2 1 (e + 1) \<Longrightarrow> \<bar>e\<bar> \<le> int k \<Longrightarrow> ilog2 k x = e"
proof (induction k arbitrary: x e)
  case 0
  then show ?case by simp
next
  case (Suc k)
  have Sm: "scale2 1 (e - 1) = scale2 1 e / 2"
    using scale2_one_Suc [of "e - 1"] by simp
  consider "2 \<le> x" | "x < 1" | "1 \<le> x" "x < 2" by linarith
  then show ?case
  proof cases
    case 1
    have "1 \<le> e"
    proof (rule ccontr)
      assume "\<not> 1 \<le> e"
      then have "scale2 1 e \<le> 1" by (intro scale2_one_le) simp
      then have "scale2 1 (e + 1) \<le> 2" by (simp add: scale2_one_Suc)
      with Suc.prems 1 show False by simp
    qed
    moreover have "scale2 1 (e - 1) \<le> x / 2" "x / 2 < scale2 1 (e - 1 + 1)"
      using Suc.prems by (simp_all add: Sm scale2_one_Suc)
    moreover have "0 < x / 2" using Suc.prems by simp
    ultimately have "ilog2 k (x / 2) = e - 1"
      using Suc.prems(4) by (intro Suc.IH) simp_all
    with 1 show ?thesis by simp
  next
    case 2
    have "e \<le> - 1"
    proof (rule ccontr)
      assume "\<not> e \<le> - 1"
      then have "1 \<le> scale2 1 e" by (intro scale2_one_ge) simp
      with Suc.prems 2 show False by simp
    qed
    moreover have "scale2 1 (e + 1) \<le> 2 * x" "2 * x < scale2 1 (e + 1 + 1)"
      using Suc.prems scale2_one_Suc [of e] scale2_one_Suc [of "e + 1"] by linarith+
    moreover have "0 < 2 * x" using Suc.prems by simp
    ultimately have "ilog2 k (2 * x) = e + 1"
      using Suc.prems(4) by (intro Suc.IH) simp_all
    with 2 show ?thesis by simp
  next
    case 3
    have "e = 0"
    proof (rule ccontr)
      assume "e \<noteq> 0"
      then consider "1 \<le> e" | "e \<le> - 1" by linarith
      then show False
      proof cases
        case 1
        then have "1 \<le> scale2 1 (e - 1)" by (intro scale2_one_ge) simp
        then have "2 \<le> scale2 1 e" using scale2_one_Suc [of "e - 1"] by simp
        with Suc.prems 3 show False by simp
      next
        case 2
        then have "scale2 1 (e + 1) \<le> 1" by (intro scale2_one_le) simp
        with Suc.prems 3 show False by simp
      qed
    qed
    with 3 show ?thesis by simp
  qed
qed

lemma rnd_pos_eval:
  assumes "0 < x" "scale2 1 e \<le> x" "x < scale2 1 (e + 1)" "- 1100 \<le> e" "e \<le> 1100"
    and "q = max (e - 52) (- 1074)"
    and "y = scale2 (of_int (rhe (scale2 x (- q)))) q"
  shows "rnd x = (if 2 ^ 1024 \<le> y then PInf else Finite y)"
proof -
  have "ilog2 1100 x = e" using assms(1-5) by (intro ilog2_exact) simp_all
  then show ?thesis using assms(1,6,7) by (simp add: rnd_def Let_def)
qed

lemma rnd_neg_eval:
  assumes "x < 0" "scale2 1 e \<le> - x" "- x < scale2 1 (e + 1)" "- 1100 \<le> e" "e \<le> 1100"
    and "q = max (e - 52) (- 1074)"
    and "y = scale2 (of_int (rhe (scale2 (- x) (- q)))) q"
  shows "rnd x = (if 2 ^ 1024 \<le> y then MInf else Finite (- y))"
proof -
  have "ilog2 1100 (- x) = e" using assms(1-5) by (intro ilog2_exact) simp_all
  then show ?thesis using assms(1,6,7) by (simp add: rnd_def Let_def)
qed

subsection \<open>Rounded values of the examples\<close>

lemma rnd_quarter: "rnd (1 / 4) = Finite (1 / 4)"
  by (subst rnd_pos_eval [where e = "- 2" and q = "- 54" and y = "1 / 4"])
     (simp_all add: scale2_def rhe_def)

lemma rnd_half: "rnd (1 / 2) = Finite (1 / 2)"
  by (subst rnd_pos_eval [where e = "- 1" and q = "- 53" and y = "1 / 2"])
     (simp_all add: scale2_def rhe_def)

lemma rnd_1: "rnd 1 = Finite 1"
  by (subst rnd_pos_eval [where e = "0" and q = "- 52" and y = "1"])
     (simp_all add: scale2_def rhe_def)

lemma rnd_3_2: "rnd (3 / 2) = Finite (3 / 2)"
  by (subst rnd_pos_eval [where e = "0" and q = "- 52" and y = "3 / 2"])
     (simp_all add: scale2_def rhe_def)

lemma rnd_7_4: "rnd (7 / 4) = Finite (7 / 4)"
  by (subst rnd_pos_eval [where e = "0" and q = "- 52" and y = "7 / 4"])
     (simp_all add: scale2_def rhe_def)

lemma rnd_2: "rnd 2 = Finite 2"
  by (subst rnd_pos_eval [where e = "1" and q = "- 51" and y = "2"])
     (simp_all add: scale2_def rhe_def)

lemma rnd_3: "rnd 3 = Finite 3"
  by (subst rnd_pos_eval [where e = "1" and q = "- 51" and y = "3"])
     (simp_all add: scale2_def rhe_def)

lemma rnd_4: "rnd 4 = Finite 4"
  by (subst rnd_pos_eval [where e = "2" and q = "- 50" and y = "4"])
     (simp_all add: scale2_def rhe_def)

lemma rnd_5: "rnd 5 = Finite 5"
  by (subst rnd_pos_eval [where e = "2" and q = "- 50" and y = "5"])
     (simp_all add: scale2_def rhe_def)

lemma rnd_6: "rnd 6 = Finite 6"
  by (subst rnd_pos_eval [where e = "2" and q = "- 50" and y = "6"])
     (simp_all add: scale2_def rhe_def)

lemma rnd_7: "rnd 7 = Finite 7"
  by (subst rnd_pos_eval [where e = "2" and q = "- 50" and y = "7"])
     (simp_all add: scale2_def rhe_def)

lemma rnd_8: "rnd 8 = Finite 8"
  by (subst rnd_pos_eval [where e = "3" and q = "- 49" and y = "8"])
     (simp_all add: scale2_def rhe_def)

lemma rnd_m10: "rnd (- 10) = Finite (- 10)"
  by (subst rnd_neg_eval [where e = "3" and q = "- 49" and y = "10"])
     (simp_all add: scale2_def rhe_def)

lemma rnd_m41_4: "rnd (- (41 / 4)) = Finite (- (41 / 4))"
  by (subst rnd_neg_eval [where e = "3" and q = "- 49" and y = "41 / 4"])
     (simp_all add: scale2_def rhe_def)

lemma rnd_cx_half_dt: "rnd (1152921504606847 / 2305843009213693952) = Finite (1152921504606847 / 2305843009213693952)"
  by (subst rnd_pos_eval [where e = "- 11" and q = "- 63" and y = "1152921504606847 / 2305843009213693952"])
     (simp_all add: scale2_def rhe_def)

lemma rnd_cx_tend: "rnd (1224979098644775 / 144115188075855872) = Finite (1224979098644775 / 144115188075855872)"
  by (subst rnd_pos_eval [where e = "- 7" and q = "- 59" and y = "1224979098644775 / 144115188075855872"])
     (simp_all add: scale2_def rhe_def)

lemma rnd_cx_threshold: "rnd (18446744073709553 / 2305843009213693952) = Finite (1152921504606847 / 144115188075855872)"
  by (subst rnd_pos_eval [where e = "- 7" and q = "- 59" and y = "1152921504606847 / 144115188075855872"])
     (simp_all add: scale2_def rhe_def)

lemma rnd_cx_time_1: "rnd (1152921504606847 / 1152921504606846976) = Finite (1152921504606847 / 1152921504606846976)"
  by (subst rnd_pos_eval [where e = "- 10" and q = "- 62" and y = "1152921504606847 / 1152921504606846976"])
     (simp_all add: scale2_def rhe_def)

lemma rnd_cx_time_2: "rnd (1152921504606847 / 576460752303423488) = Finite (1152921504606847 / 576460752303423488)"
  by (subst rnd_pos_eval [where e = "- 9" and q = "- 61" and y = "1152921504606847 / 576460752303423488"])
     (simp_all add: scale2_def rhe_def)

lemma rnd_cx_time_3: "rnd (3458764513820541 / 1152921504606846976) = Finite (3458764513820541 / 1152921504606846976)"
  by (subst rnd_pos_eval [where e = "- 9" and q = "- 61" and y = "3458764513820541 / 1152921504606846976"])
     (simp_all add: scale2_def rhe_def)

lemma rnd_cx_time_4: "rnd (1152921504606847 / 288230376151711744) = Finite (1152921504606847 / 288230376151711744)"
  by (subst rnd_pos_eval [where e = "- 8" and q = "- 60" and y = "1152921504606847 / 288230376151711744"])
     (simp_all add: scale2_def rhe_def)

lemma rnd_cx_time_5: "rnd (5764607523034235 / 1152921504606846976) = Finite (5764607523034235 / 1152921504606846976)"
  by (subst rnd_pos_eval [where e = "- 8" and q = "- 60" and y = "5764607523034235 / 1152921504606846976"])
     (simp_all add: scale2_def rhe_def)

lemma rnd_cx_time_6: "rnd (3458764513820541 / 576460752303423488) = Finite (3458764513820541 / 576460752303423488)"
  by (subst rnd_pos_eval [where e = "- 8" and q = "- 60" and y = "3458764513820541 / 576460752303423488"])
     (simp_all add: scale2_def rhe_def)

lemma rnd_cx_time_7: "rnd (8070450532247929 / 1152921504606846976) = Finite (8070450532247929 / 1152921504606846976)"
  by (subst rnd_pos_eval [where e = "- 8" and q = "- 60" and y = "8070450532247929 / 1152921504606846976"])
     (simp_all add: scale2_def rhe_def)

lemma rnd_cx_time_8: "rnd (1152921504606847 / 144115188075855872) = Finite (1152921504606847 / 144115188075855872)"
  by (subst rnd_pos_eval [where e = "- 7" and q = "- 59" and y = "1152921504606847 / 144115188075855872"])
     (simp_all add: scale2_def rhe_def)

subsection \<open>Counting loop passes\<close>

lemma iterate_cnt:
  assumes "\<And>s s'. body s = Inr s' \<Longrightarrow> cnt s' = cnt s + 1"
  shows "iterate n body s = Inr s' \<Longrightarrow> cnt s' = cnt s + n"
proof (induction n arbitrary: s)
  case 0
  then show ?case by simp
next
  case (Suc n)
  then show ?case using assms by (fastforce split: sum.splits)
qed

lemma loop_guard_PInf [simp]: "\<not> loop_guard E tend PInf"
  by (simp add: loop_guard_def)

lemma loop_time_0: "loop_time E 0 = Finite 0"
  by (simp add: loop_time_def)

lemma loop_time_huge:
  assumes "0 < dt E" "2 ^ 1100 \<le> c"
  shows "loop_time E c = PInf"
proof -
  have "(2::real) ^ 1100 \<le> real c" using assms(2) by (metis of_nat_le_iff of_nat_numeral of_nat_power)
  then show ?thesis using assms(1) by (simp add: loop_time_def rnd_huge inf_signed_def)
qed

lemma loop_stops:
  assumes "0 < dt E"
  shows "\<exists>m \<ge> c. \<not> loop_guard E tend (loop_time E m)"
proof -
  have "\<not> loop_guard E tend (loop_time E (max c (2 ^ 1100)))"
    using loop_time_huge [OF assms, of "max c (2 ^ 1100)"] by simp
  then show ?thesis by (meson max.cobounded1)
qed

lemma while_iterate:
  fixes L :: "ts_state \<Rightarrow> (error + ts_state) option"
  assumes unfold: "\<And>s. L s = (if loop_guard E tend (time s)
                               then (case body s of Inl e \<Rightarrow> Some (Inl e) | Inr s' \<Rightarrow> L s')
                               else Some (Inr s))"
    and step: "\<And>s s'. body s = Inr s' \<Longrightarrow> cnt s' = cnt s + 1 \<and> time s' = loop_time E (cnt s + 1)"
    and stop: "\<not> loop_guard E tend (loop_time E m)"
    and le: "cnt s \<le> m"
    and inv: "time s = loop_time E (cnt s)"
  shows "L s = Some (iterate ((LEAST n. cnt s \<le> n \<and> \<not> loop_guard E tend (loop_time E n)) - cnt s)
                       body s)"
  using le inv
proof (induction "m - cnt s" arbitrary: s rule: less_induct)
  case less
  let ?Q = "\<lambda>c n. c \<le> n \<and> \<not> loop_guard E tend (loop_time E n)"
  show ?case
  proof (cases "loop_guard E tend (time s)")
    case False
    then have "?Q (cnt s) (cnt s)" using less.prems by simp
    then have "(LEAST n. ?Q (cnt s) n) = cnt s"
      by (intro Least_equality) auto
    with False show ?thesis by (simp add: unfold [of s])
  next
    case True
    then have ne: "cnt s \<noteq> m" using stop less.prems by auto
    with less.prems have lt: "cnt s < m" by simp
    have "?Q (cnt s) n \<longleftrightarrow> ?Q (cnt s + 1) n" for n
      using True less.prems by (cases "n = cnt s") auto
    then have eq: "(LEAST n. ?Q (cnt s) n) = (LEAST n. ?Q (cnt s + 1) n)"
      by simp
    define N where "N = (LEAST n. ?Q (cnt s + 1) n)"
    have "?Q (cnt s + 1) m" using lt stop by simp
    then have "?Q (cnt s + 1) N" unfolding N_def by (rule LeastI)
    then have "cnt s + 1 \<le> N" by blast
    then have N: "N - cnt s = Suc (N - (cnt s + 1))" by arith
    have goal: "L s = Some (iterate (N - cnt s) body s)"
    proof (cases "body s")
      case (Inl e)
      with True show ?thesis unfolding N by (simp add: unfold [of s])
    next
      case (Inr s')
      from step [OF Inr] have c: "cnt s' = cnt s + 1" "time s' = loop_time E (cnt s')" by simp_all
      have "L s = L s'" using Inr True by (simp add: unfold [of s])
      also have "\<dots> = Some (iterate (N - (cnt s + 1)) body s')"
        using less.hyps [of s'] c lt unfolding N_def by simp
      finally show ?thesis unfolding N using Inr by simp
    qed
    show ?thesis unfolding eq using goal unfolding N_def .
  qed
qed

lemma while_from_start:
  fixes L :: "ts_state \<Rightarrow> (error + ts_state) option"
  assumes unfold: "\<And>s. L s = (if loop_guard E tend (time s)
                               then (case body s of Inl e \<Rightarrow> Some (Inl e) | Inr s' \<Rightarrow> L s')
                               else Some (Inr s))"
    and step: "\<And>s s'. body s = Inr s' \<Longrightarrow> cnt s' = cnt s + 1 \<and> time s' = loop_time E (cnt s + 1)"
    and pos: "0 < dt E"
    and c0: "cnt s = 0"
  shows "L s = Some (iterate (if loop_guard E tend (time s)
                              then (LEAST n. 1 \<le> n \<and> \<not> loop_guard E tend (loop_time E n)) else 0)
                       body s)"
proof (cases "loop_guard E tend (time s)")
  case False
  then show ?thesis by (simp add: unfold [of s])
next
  case True
  define N where "N = (LEAST n. 1 \<le> n \<and> \<not> loop_guard E tend (loop_time E n))"
  from loop_stops [OF pos, of 1 tend] obtain m where
    m: "1 \<le> m" "\<not> loop_guard E tend (loop_time E m)" by blast
  then have "1 \<le> N \<and> \<not> loop_guard E tend (loop_time E N)"
    unfolding N_def
    by (intro LeastI [of "\<lambda>n. 1 \<le> n \<and> \<not> loop_guard E tend (loop_time E n)" m]) simp
  then obtain k where N: "N = Suc k" by (cases N) auto
  have it: "iterate N body s
            = (case body s of Inl e \<Rightarrow> Inl e | Inr s' \<Rightarrow> iterate k body s')"
    unfolding N by simp
  have "L s = Some (iterate N body s)"
  proof (cases "body s")
    case (Inl e)
    with True show ?thesis unfolding it by (simp add: unfold [of s])
  next
    case (Inr s')
    from step [OF Inr] c0 have c: "cnt s' = 1" "time s' = loop_time E (cnt s')" by simp_all
    have "(LEAST n. cnt s' \<le> n \<and> \<not> loop_guard E tend (loop_time E n)) - cnt s' = k"
      using c(1) N unfolding N_def by simp
    then have "L s' = Some (iterate k body s')"
      using while_iterate [of L E tend body m s', OF unfold step m(2)] c m(1) by simp
    moreover have "L s = L s'" using Inr True by (simp add: unfold [of s])
    ultimately show ?thesis unfolding it using Inr by simp
  qed
  with True show ?thesis unfolding N_def by (simp only: if_True)
qed

lemma while_from_zero:
  fixes L :: "ts_state \<Rightarrow> (error + ts_state) option"
  assumes unfold: "\<And>s. L s = (if loop_guard E tend (time s)
                               then (case body s of Inl e \<Rightarrow> Some (Inl e) | Inr s' \<Rightarrow> L s')
                               else Some (Inr s))"
    and step: "\<And>s s'. body s = Inr s' \<Longrightarrow> cnt s' = cnt s + 1 \<and> time s' = loop_time E (cnt s + 1)"
    and pos: "0 < dt E"
    and c0: "cnt s = 0" "time s = Finite 0"
  shows "L s = Some (iterate (LEAST n. \<not> loop_guard E tend (loop_time E n)) body s)"
proof -
  from loop_stops [OF pos, of 0 tend] obtain m where
    m: "\<not> loop_guard E tend (loop_time E m)" by blast
  from while_iterate [of L E tend body m s, OF unfold step m] c0
  show ?thesis by (simp add: loop_time_0)
qed

lemma TimeStepping_body_cnt:
  "TimeStepping_body E iv si s = Inr s' \<Longrightarrow> cnt s' = cnt s + 1 \<and> time s' = loop_time E (cnt s + 1)"
  by (auto simp: TimeStepping_body_def split: sum.splits if_splits)

lemma TimeSteppingVTK_body_cnt:
  "TimeSteppingVTK_body E iv si s = Inr s' \<Longrightarrow> cnt s' = cnt s + 1 \<and> time s' = loop_time E (cnt s + 1)"
  by (auto simp: TimeSteppingVTK_body_def Let_def split: sum.splits if_splits)

lemma TimeStepping_loop_start:
  assumes "0 < dt E" "cnt s = 0"
  shows "TimeStepping_loop E iv tend si s
         = Some (iterate (if loop_guard E tend (time s)
                          then (LEAST n. 1 \<le> n \<and> \<not> loop_guard E tend (loop_time E n)) else 0)
                   (TimeStepping_body E iv si) s)"
  by (rule while_from_start [OF TimeStepping_loop.simps TimeStepping_body_cnt assms])

lemma TimeSteppingVTK_loop_start:
  assumes "0 < dt E" "cnt s = 0"
  shows "TimeSteppingVTK_loop E iv tend si s
         = Some (iterate (if loop_guard E tend (time s)
                          then (LEAST n. 1 \<le> n \<and> \<not> loop_guard E tend (loop_time E n)) else 0)
                   (TimeSteppingVTK_body E iv si) s)"
  by (rule while_from_start [OF TimeSteppingVTK_loop.simps TimeSteppingVTK_body_cnt assms])

lemma TimeStepping_loop_zero:
  assumes "0 < dt E" "cnt s = 0" "time s = Finite 0"
  shows "TimeStepping_loop E iv tend si s
         = Some (iterate (LEAST n. \<not> loop_guard E tend (loop_time E n)) (TimeStepping_body E iv si) s)"
  by (rule while_from_zero [OF TimeStepping_loop.simps TimeStepping_body_cnt assms])

lemma loop_guard_Finite:
  "fsub (rnd tend) (fmul (Finite 0.5) (Finite (dt E))) = Finite T
   \<Longrightarrow> loop_guard E tend (Finite x) \<longleftrightarrow> x < T"
  by (simp add: loop_guard_def)

subsection \<open>Loop times and pass counts of the examples\<close>

lemma half_threshold:
  assumes "dt E = 1 / 2"
  shows "fsub (rnd 2) (fmul (Finite 0.5) (Finite (dt E))) = Finite (7 / 4)"
    and "fsub (rnd (- 10)) (fmul (Finite 0.5) (Finite (dt E))) = Finite (- (41 / 4))"
  unfolding assms by (simp_all add: rnd_quarter rnd_2 rnd_7_4 rnd_m10 rnd_m41_4)

lemma half_loop_time:
  assumes "dt E = 1 / 2"
  shows "loop_time E (Suc 0) = Finite (1 / 2)" "loop_time E (Suc (Suc 0)) = Finite 1"
    "loop_time E (Suc (Suc (Suc 0))) = Finite (3 / 2)"
    "loop_time E (Suc (Suc (Suc (Suc 0)))) = Finite 2"
  unfolding loop_time_def assms by (simp_all add: rnd_half rnd_1 rnd_3_2 rnd_2 rnd_3 rnd_4)

lemma half_loop_guard:
  assumes "dt E = 1 / 2" "n \<le> 4"
  shows "loop_guard E 2 (loop_time E n) \<longleftrightarrow> n < 4"
proof -
  from assms(2) consider "n = 0" | "n = 1" | "n = 2" | "n = 3" | "n = 4" by linarith
  then show ?thesis
    by cases (simp_all add: eval_nat_numeral loop_time_0 half_loop_time [OF assms(1)]
        loop_guard_Finite [OF half_threshold(1) [OF assms(1)]])
qed

lemma half_passes:
  assumes "dt E = 1 / 2"
  shows "(LEAST n. \<not> loop_guard E 2 (loop_time E n)) = 4"
proof (rule Least_equality)
  show "\<not> loop_guard E 2 (loop_time E 4)" using half_loop_guard [OF assms, of 4] by simp
  fix y assume "\<not> loop_guard E 2 (loop_time E y)"
  then show "4 \<le> y" using half_loop_guard [OF assms, of y] by (cases "y \<le> 4") simp_all
qed

lemma half_passes_from:
  assumes "dt E = 1 / 2"
  shows "(LEAST n. 1 \<le> n \<and> \<not> loop_guard E 2 (loop_time E n)) = 4"
proof (rule Least_equality)
  show "1 \<le> (4::nat) \<and> \<not> loop_guard E 2 (loop_time E 4)"
    using half_loop_guard [OF assms, of 4] by simp
  fix y assume "1 \<le> y \<and> \<not> loop_guard E 2 (loop_time E y)"
  then show "4 \<le> y" using half_loop_guard [OF assms, of y] by (cases "y \<le> 4") simp_all
qed

lemma cx_threshold:
  "fsub (rnd cx_tend) (fmul (Finite 0.5) (Finite (dt cx_env))) = Finite (1152921504606847 / 144115188075855872)"
  by (simp add: cx_env_def cx_tend_def rnd_cx_half_dt rnd_cx_tend rnd_cx_threshold)

lemma cx_loop_time:
  "loop_time cx_env (Suc 0) = Finite (1152921504606847 / 1152921504606846976)"
  "loop_time cx_env 2 = Finite (1152921504606847 / 576460752303423488)"
  "loop_time cx_env 3 = Finite (3458764513820541 / 1152921504606846976)"
  "loop_time cx_env 4 = Finite (1152921504606847 / 288230376151711744)"
  "loop_time cx_env 5 = Finite (5764607523034235 / 1152921504606846976)"
  "loop_time cx_env 6 = Finite (3458764513820541 / 576460752303423488)"
  "loop_time cx_env 7 = Finite (8070450532247929 / 1152921504606846976)"
  "loop_time cx_env 8 = Finite (1152921504606847 / 144115188075855872)"
  by (simp_all add: loop_time_def cx_env_def rnd_1 rnd_2 rnd_3 rnd_4 rnd_5 rnd_6 rnd_7 rnd_8
      rnd_cx_time_1 rnd_cx_time_2 rnd_cx_time_3 rnd_cx_time_4 rnd_cx_time_5 rnd_cx_time_6 rnd_cx_time_7 rnd_cx_time_8)

lemma cx_loop_guard:
  "loop_guard cx_env cx_tend (loop_time cx_env n) \<longleftrightarrow> n < 8" if "n \<le> 8"
proof -
  from that consider "n = 0" | "n = 1" | "n = 2" | "n = 3" | "n = 4" | "n = 5" | "n = 6"
    | "n = 7" | "n = 8" by linarith
  then show ?thesis
    by cases (simp_all add: loop_time_0 cx_loop_time loop_guard_Finite [OF cx_threshold])
qed

lemma cx_passes: "(LEAST n. \<not> loop_guard cx_env cx_tend (loop_time cx_env n)) = 8"
proof (rule Least_equality)
  show "\<not> loop_guard cx_env cx_tend (loop_time cx_env 8)" using cx_loop_guard [of 8] by simp
  fix y assume "\<not> loop_guard cx_env cx_tend (loop_time cx_env y)"
  then show "8 \<le> y" using cx_loop_guard [of y] by (cases "y \<le> 8") simp_all
qed

subsection \<open>Dirichlet solve and zero data\<close>

lemma apply_inverse_Inr:
  "length r = length (inv_free iv) \<Longrightarrow> \<exists>d. apply_inverse iv r = Inr d \<and> length d = length r"
  by (simp add: apply_inverse_def Let_def)

lemma sum_list_all_zero: "(\<And>x. x \<in> set xs \<Longrightarrow> g x = (0::real)) \<Longrightarrow> sum_list (map g xs) = 0"
  by (induction xs) auto

lemma residual_zero:
  assumes "f_vec E = zeros n" "height (a_mat E) = n" "width (a_mat E) = n"
  shows "residual E (zeros n) = Inr (zeros n)"
proof -
  have "sum_list (map (\<lambda>j. entry (mscale (dt E) (a_mat E)) i j * zeros n ! j) [0..<n]) = 0" for i
    by (rule sum_list_all_zero) (simp add: zeros_def)
  then have "matvec (mscale (dt E) (a_mat E)) (zeros n) = Inr (zeros n)"
    using assms by (auto simp: matvec_def mscale_def zeros_def intro!: nth_equalityI)
  then show ?thesis using assms
    by (auto simp: residual_def vsub_def zeros_def intro!: nth_equalityI)
qed

lemma apply_inverse_zero:
  assumes "length (inv_free iv) = n"
  shows "apply_inverse iv (zeros n) = Inr (zeros n)"
proof -
  have "sum_list (map (\<lambda>q. inv_fact iv ! p ! q * zeros n ! (F ! q)) [0..<length F]) = 0"
    if "\<forall>q < length F. F ! q < n" for p and F :: "nat list"
    using that by (intro sum_list_all_zero) (simp add: zeros_def)
  moreover have "\<forall>q < length (free_list (inv_free iv)). free_list (inv_free iv) ! q < n"
    using free_list_nth [of _ "inv_free iv"] assms by auto
  ultimately show ?thesis using assms
    by (auto simp: apply_inverse_def Let_def zeros_def intro!: nth_equalityI split: option.splits)
qed

lemma euler_update_zero:
  assumes "f_vec E = zeros n" "height (a_mat E) = n" "width (a_mat E) = n" "length (inv_free iv) = n"
  shows "euler_update E iv (zeros n) = Inr (zeros n)"
proof -
  have "vadd (zeros n) (zeros n) = Inr (zeros n)"
    by (auto simp: vadd_def zeros_def intro!: nth_equalityI)
  then show ?thesis
    using residual_zero [OF assms(1-3)] apply_inverse_zero [OF assms(4)]
    by (simp add: euler_update_def)
qed

lemma TimeStepping_body_zero:
  assumes "f_vec E = zeros n" "height (a_mat E) = n" "width (a_mat E) = n" "length (inv_free iv) = n"
    and "si \<noteq> 0" "gfu s = zeros n" "\<forall>u \<in> set (gfut s). u = zeros n"
  shows "\<exists>s'. TimeStepping_body E iv si s = Inr s' \<and> gfu s' = zeros n \<and> (\<forall>u \<in> set (gfut s'). u = zeros n)"
  using euler_update_zero [OF assms(1-4)] assms(5-7)
  by (simp add: TimeStepping_body_def)

lemma iterate_zero:
  assumes "f_vec E = zeros n" "height (a_mat E) = n" "width (a_mat E) = n" "length (inv_free iv) = n"
    and "si \<noteq> 0"
  shows "gfu s = zeros n \<Longrightarrow> \<forall>u \<in> set (gfut s). u = zeros n \<Longrightarrow>
         \<exists>s'. iterate k (TimeStepping_body E iv si) s = Inr s' \<and> gfu s' = zeros n
              \<and> (\<forall>u \<in> set (gfut s'). u = zeros n)"
proof (induction k arbitrary: s)
  case 0
  then show ?case by simp
next
  case (Suc k)
  from TimeStepping_body_zero [OF assms Suc.prems] obtain s1 where
    s1: "TimeStepping_body E iv si s = Inr s1" "gfu s1 = zeros n" "\<forall>u \<in> set (gfut s1). u = zeros n"
    by blast
  from Suc.IH [OF s1(2,3)] s1(1) show ?case by simp
qed

lemma sample_interval_pos:
  assumes "0 < h" "0 < nsamples" "0 \<le> tend"
  shows "\<exists>si. sample_interval tend h nsamples = Inr si \<and> 0 < si"
proof -
  have "0 \<le> tend / h / real_of_int nsamples" using assms by simp
  then have "0 \<le> \<lfloor>tend / h / real_of_int nsamples\<rfloor>" by simp
  then show ?thesis using assms by (simp add: sample_interval_def)
qed

subsection \<open>The assembled step matrix\<close>

lemma build_mstar_Inr:
  assumes "wf_mat m" "wf_mat a" "pattern a = pattern m"
  shows "build_mstar junk h m a =
         Inr (m\<lparr>vals := map (\<lambda>i. vals m ! i + h * vals a ! i) [0..<length (pattern m)]\<rparr>)"
  using assms
  by (simp add: build_mstar_def wf_mat_def vadd_def AsVector_def assign_AsVector_def
      CreateMatrix_def nze_def Let_def)

lemma build_mstar_shape:
  assumes "build_mstar junk h m a = Inr mstar"
  shows "pattern mstar = pattern m \<and> height mstar = height m \<and> width mstar = width m
         \<and> wf_mat m \<and> length (vals a) = length (pattern m)"
  using assms
  by (auto simp: build_mstar_def Let_def vadd_def AsVector_def assign_AsVector_def CreateMatrix_def
      nze_def wf_mat_def split: if_splits)

lemma build_mstar_entry:
  assumes "build_mstar junk h m a = Inr mstar" "pattern a = pattern m"
  shows "entry mstar r c = entry m r c + h * entry a r c"
proof -
  from build_mstar_shape [OF assms(1)] assms(2) have wf: "wf_mat m" "wf_mat a"
    by (simp_all add: wf_mat_def)
  from build_mstar_Inr [OF wf assms(2), of junk h] assms(1)
  have ms: "mstar = m\<lparr>vals := map (\<lambda>i. vals m ! i + h * vals a ! i) [0..<length (pattern m)]\<rparr>"
    by simp
  show ?thesis
  proof (cases "index_of (r, c) (pattern m)")
    case None
    then show ?thesis using assms(2) by (simp add: entry_def ms)
  next
    case (Some k)
    then have "k < length (pattern m)" by (rule index_of_less)
    then show ?thesis using Some assms(2) by (simp add: entry_def ms)
  qed
qed

subsection \<open>The two loops in lockstep\<close>

lemma bodies_same:
  assumes "same_solution s1 s2" "si1 = 0 \<longleftrightarrow> si2 = 0"
  shows "rel_sum (=) same_solution (TimeStepping_body E iv si1 s1) (TimeSteppingVTK_body E iv si2 s2)"
  using assms
  by (auto simp: TimeStepping_body_def TimeSteppingVTK_body_def same_solution_def Let_def
      split: sum.splits)

lemma TS_to_VTK:
  assumes "TimeStepping_loop E iv tend si1 s1 = Some r1"
  shows "\<forall>s2 si2. same_solution s1 s2 \<longrightarrow> (si1 = 0 \<longleftrightarrow> si2 = 0) \<longrightarrow>
         (\<exists>r2. TimeSteppingVTK_loop E iv tend si2 s2 = Some r2 \<and> rel_sum (=) same_solution r1 r2)"
proof (rule TimeStepping_loop.raw_induct
    [of "\<lambda>E iv tend si1 s1 r1. \<forall>s2 si2. same_solution s1 s2 \<longrightarrow> (si1 = 0 \<longleftrightarrow> si2 = 0) \<longrightarrow>
         (\<exists>r2. TimeSteppingVTK_loop E iv tend si2 s2 = Some r2 \<and> rel_sum (=) same_solution r1 r2)",
     OF _ assms], intro allI impI)
  fix loop E iv tend si1 s1 r1 s2 and si2 :: int
  assume 1: "\<And>E iv tend si1 s1 r1. loop E iv tend si1 s1 = Some r1 \<Longrightarrow>
       \<forall>s2 si2. same_solution s1 s2 \<longrightarrow> (si1 = 0 \<longleftrightarrow> si2 = 0) \<longrightarrow>
         (\<exists>r2. TimeSteppingVTK_loop E iv tend si2 s2 = Some r2 \<and> rel_sum (=) same_solution r1 r2)"
    and 4: "(if loop_guard E tend (time s1)
      then case TimeStepping_body E iv si1 s1 of
           Inl e \<Rightarrow> Some (Inl e)
           | Inr s' \<Rightarrow> loop E iv tend si1 s'
      else Some (Inr s1)) = Some r1"
    and same: "same_solution s1 s2" and 3: "(si1 = 0) = (si2 = 0)"
  from same have t: "time s2 = time s1" by (simp add: same_solution_def)
  show "\<exists>r2. TimeSteppingVTK_loop E iv tend si2 s2 = Some r2 \<and> rel_sum (=) same_solution r1 r2"
  proof (cases "loop_guard E tend (time s1)")
    case False
    with 4 have "r1 = Inr s1" by simp
    moreover have "TimeSteppingVTK_loop E iv tend si2 s2 = Some (Inr s2)"
      using False t by (simp add: TimeSteppingVTK_loop.simps [of E iv tend si2 s2])
    ultimately show ?thesis using same by simp
  next
    case True
    from bodies_same [OF same 3, of E iv]
    have rel: "rel_sum (=) same_solution (TimeStepping_body E iv si1 s1) (TimeSteppingVTK_body E iv si2 s2)" .
    show ?thesis
    proof (cases "TimeStepping_body E iv si1 s1")
      case (Inl e)
      with rel have "TimeSteppingVTK_body E iv si2 s2 = Inl e"
        by (cases "TimeSteppingVTK_body E iv si2 s2") simp_all
      then have "TimeSteppingVTK_loop E iv tend si2 s2 = Some (Inl e)"
        using True t by (simp add: TimeSteppingVTK_loop.simps [of E iv tend si2 s2])
      moreover from 4 True Inl have "r1 = Inl e" by simp
      ultimately show ?thesis by simp
    next
      case (Inr s1')
      with rel obtain s2' where s2': "TimeSteppingVTK_body E iv si2 s2 = Inr s2'" "same_solution s1' s2'"
        by (cases "TimeSteppingVTK_body E iv si2 s2") simp_all
      from 4 True Inr have "loop E iv tend si1 s1' = Some r1" by simp
      from 1 [OF this] s2'(2) 3
      obtain r2 where "TimeSteppingVTK_loop E iv tend si2 s2' = Some r2" "rel_sum (=) same_solution r1 r2"
        by blast
      moreover have "TimeSteppingVTK_loop E iv tend si2 s2 = TimeSteppingVTK_loop E iv tend si2 s2'"
        using True t s2' by (simp add: TimeSteppingVTK_loop.simps [of E iv tend si2 s2])
      ultimately show ?thesis by simp
    qed
  qed
qed

lemma VTK_to_TS:
  assumes "TimeSteppingVTK_loop E iv tend si2 s2 = Some r2"
  shows "\<forall>s1 si1. same_solution s1 s2 \<longrightarrow> (si1 = 0 \<longleftrightarrow> si2 = 0) \<longrightarrow>
         (\<exists>r1. TimeStepping_loop E iv tend si1 s1 = Some r1 \<and> rel_sum (=) same_solution r1 r2)"
proof (rule TimeSteppingVTK_loop.raw_induct
    [of "\<lambda>E iv tend si2 s2 r2. \<forall>s1 si1. same_solution s1 s2 \<longrightarrow> (si1 = 0 \<longleftrightarrow> si2 = 0) \<longrightarrow>
         (\<exists>r1. TimeStepping_loop E iv tend si1 s1 = Some r1 \<and> rel_sum (=) same_solution r1 r2)",
     OF _ assms], intro allI impI)
  fix loop E iv tend si2 s2 r2 s1 and si1 :: int
  assume 1: "\<And>E iv tend si2 s2 r2. loop E iv tend si2 s2 = Some r2 \<Longrightarrow>
       \<forall>s1 si1. same_solution s1 s2 \<longrightarrow> (si1 = 0 \<longleftrightarrow> si2 = 0) \<longrightarrow>
         (\<exists>r1. TimeStepping_loop E iv tend si1 s1 = Some r1 \<and> rel_sum (=) same_solution r1 r2)"
    and 4: "(if loop_guard E tend (time s2)
      then case TimeSteppingVTK_body E iv si2 s2 of
           Inl e \<Rightarrow> Some (Inl e)
           | Inr s' \<Rightarrow> loop E iv tend si2 s'
      else Some (Inr s2)) = Some r2"
    and same: "same_solution s1 s2" and 3: "(si1 = 0) = (si2 = 0)"
  from same have t: "time s2 = time s1" by (simp add: same_solution_def)
  show "\<exists>r1. TimeStepping_loop E iv tend si1 s1 = Some r1 \<and> rel_sum (=) same_solution r1 r2"
  proof (cases "loop_guard E tend (time s1)")
    case False
    with 4 t have "r2 = Inr s2" by simp
    moreover have "TimeStepping_loop E iv tend si1 s1 = Some (Inr s1)"
      using False by (simp add: TimeStepping_loop.simps [of E iv tend si1 s1])
    ultimately show ?thesis using same by simp
  next
    case True
    from bodies_same [OF same 3, of E iv]
    have rel: "rel_sum (=) same_solution (TimeStepping_body E iv si1 s1) (TimeSteppingVTK_body E iv si2 s2)" .
    show ?thesis
    proof (cases "TimeSteppingVTK_body E iv si2 s2")
      case (Inl e)
      with rel have "TimeStepping_body E iv si1 s1 = Inl e"
        by (cases "TimeStepping_body E iv si1 s1") simp_all
      then have "TimeStepping_loop E iv tend si1 s1 = Some (Inl e)"
        using True by (simp add: TimeStepping_loop.simps [of E iv tend si1 s1])
      moreover from 4 True t Inl have "r2 = Inl e" by simp
      ultimately show ?thesis by simp
    next
      case (Inr s2')
      with rel obtain s1' where s1': "TimeStepping_body E iv si1 s1 = Inr s1'" "same_solution s1' s2'"
        by (cases "TimeStepping_body E iv si1 s1") simp_all
      from 4 True t Inr have "loop E iv tend si2 s2' = Some r2" by simp
      from 1 [OF this] s1'(2) 3
      obtain r1 where "TimeStepping_loop E iv tend si1 s1' = Some r1" "rel_sum (=) same_solution r1 r2"
        by blast
      moreover have "TimeStepping_loop E iv tend si1 s1 = TimeStepping_loop E iv tend si1 s1'"
        using True s1' by (simp add: TimeStepping_loop.simps [of E iv tend si1 s1])
      ultimately show ?thesis by simp
    qed
  qed
qed

lemma loops_same:
  assumes "same_solution s1 s2" "si1 = 0 \<longleftrightarrow> si2 = 0"
  shows "rel_option (rel_sum (=) same_solution)
           (TimeStepping_loop E iv tend si1 s1) (TimeSteppingVTK_loop E iv tend si2 s2)"
proof (cases "TimeStepping_loop E iv tend si1 s1")
  case None
  have "TimeSteppingVTK_loop E iv tend si2 s2 = None"
  proof (cases "TimeSteppingVTK_loop E iv tend si2 s2")
    case (Some r2)
    from VTK_to_TS [OF Some, rule_format, OF assms] None show ?thesis by simp
  qed simp
  with None show ?thesis by simp
next
  case (Some r1)
  from TS_to_VTK [OF Some, rule_format, OF assms] Some show ?thesis by auto
qed

lemma free_list_ex: "free_list [True, False] = [0]"
  by (simp add: free_list_def upt_rec)

subsection \<open>Further facts about the loop bodies\<close>

lemma TimeStepping_body_printed:
  "TimeStepping_body E iv si s = Inr s' \<Longrightarrow> length (printed s') = length (printed s) + 1"
  by (auto simp: TimeStepping_body_def split: sum.splits if_splits)

lemma iterate_printed:
  "iterate n (TimeStepping_body E iv si) s = Inr s' \<Longrightarrow> length (printed s') = length (printed s) + n"
proof (induction n arbitrary: s)
  case 0
  then show ?case by simp
next
  case (Suc n)
  then show ?case using TimeStepping_body_printed [of E iv si s]
    by (fastforce split: sum.splits)
qed

lemma iterate_gfu_zero:
  assumes "f_vec E = zeros n" "height (a_mat E) = n" "width (a_mat E) = n" "length (inv_free iv) = n"
    and "si \<noteq> 0"
  shows "gfu s = zeros n \<Longrightarrow> \<exists>s'. iterate k (TimeStepping_body E iv si) s = Inr s' \<and> gfu s' = zeros n"
proof (induction k arbitrary: s)
  case 0
  then show ?case by simp
next
  case (Suc k)
  obtain s1 where s1: "TimeStepping_body E iv si s = Inr s1" "gfu s1 = zeros n"
    using euler_update_zero [OF assms(1-4)] assms(5) Suc.prems by (simp add: TimeStepping_body_def)
  from Suc.IH [OF s1(2)] s1(1) show ?case by simp
qed

subsection \<open>The two-dof example, evaluated\<close>

lemma ex_mstar:
  "build_mstar (\<lambda>_. 0) (1/2) ex_m ex_a
   = Inr \<lparr>height = 2, width = 2, pattern = [(0,0), (0,1), (1,0), (1,1)], vals = [2, 1/2, 1/2, 2]\<rparr>"
  by (simp add: build_mstar_def ex_m_def ex_a_def vadd_def vscale_def AsVector_def
      CreateMatrix_def assign_AsVector_def nze_def upt_rec)

lemma ex_Inverse:
  "Inverse ex_solver \<lparr>height = 2, width = 2, pattern = [(0,0), (0,1), (1,0), (1,1)], vals = [2, 1/2, 1/2, 2]\<rparr>
     [True, False] = Inr ex_inv"
  by (simp add: Inverse_def ex_solver_def free_block_def free_list_ex entry_def ex_inv_def)

lemma ex_right_inverse:
  "right_inverse (free_block \<lparr>height = 2, width = 2, pattern = [(0,0), (0,1), (1,0), (1,1)], vals = [2, 1/2, 1/2, 2]\<rparr> [True, False])
     (inv_fact ex_inv)"
  by (simp add: right_inverse_def free_block_def free_list_ex entry_def ex_inv_def)

lemma ex_residual: "residual ex_env [0, 3] = Inr [-1, -3]"
  by (simp add: residual_def ex_env_def ex_a_def matvec_def mscale_def vscale_def vsub_def
      entry_def upt_rec)

lemma ex_apply_inverse: "apply_inverse ex_inv [-1, -3] = Inr [-1/2, 0]"
  by (simp add: apply_inverse_def ex_inv_def free_list_ex upt_rec)

lemma ex_euler_update:
  "euler_update ex_env ex_inv [x, y] = Inr [x + (1 / 2 - x - y / 2) / 2, y]"
  by (simp add: euler_update_def residual_def ex_env_def ex_a_def matvec_def mscale_def
      vscale_def vsub_def entry_def upt_rec apply_inverse_def ex_inv_def free_list_ex vadd_def
      field_simps)

subsection \<open>Function spaces\<close>

lemma set_free_constrained:
  "set (free_list fd) \<union> set (constrained_list fd) = {..<length fd}"
  "set (free_list fd) \<inter> set (constrained_list fd) = {}"
  by (auto simp: free_list_def constrained_list_def)

lemma H1_no_dirichlet:
  "H1 basis mesh order [] =
   Inr \<lparr>ndof = lay_ndof (basis mesh order), el_dofs = lay_el_dofs (basis mesh order),
        free = replicate (lay_ndof (basis mesh order)) True\<rparr>"
  by (simp add: H1_def Let_def constrained_dofs_def map_replicate_const)

lemma concat_replicate_replicate: "concat (replicate d (replicate n x)) = replicate (d * n) x"
  by (induction d) (simp_all add: replicate_add)

lemma VectorH1_no_dirichlet:
  assumes "VectorH1 basis d mesh order [] = Inr V"
  shows "FreeDofs V = replicate (ndof V) True"
  using assms
  by (auto simp: VectorH1_def H1_no_dirichlet FreeDofs_def concat_replicate_replicate)

lemma free_list_all: "free_list (replicate n True) = [0..<n]"
  by (simp add: free_list_def filter_id_conv)

subsection \<open>The evolution loop\<close>

lemma bindE_Inr [simp]: "bindE (Inr x) f = f x"
  by (simp add: bindE_def)

lemma bindE_Inl [simp]: "bindE (Inl e) f = Inl e"
  by (simp add: bindE_def)

lemma bindE_eq_Inr: "bindE m f = Inr y \<longleftrightarrow> (\<exists>x. m = Inr x \<and> f x = Inr y)"
  by (cases m) simp_all

lemma mcf_body_Inr:
  assumes "mcf_body P s = Inr s'"
  shows "\<exists>A b iv X d.
           asm_bf P (M_form (tau P)) (dXh s) = Inr A
         \<and> asm_lf P l_form (dXh s) = Inr b
         \<and> Inverse (mcf_solver P) A (inv_free (Minv s)) = Inr iv
         \<and> apply_inverse iv b = Inr X
         \<and> vsub X (Idh P) = Inr d
         \<and> s' = \<lparr>t_now = t_now s + tau P, i_now = i_now s + 1, Xh = X, dXh = d, M_mat = A,
                 l_vec = b, Minv = iv,
                 events = events s @ [Print (t_now s), AssembleM (M_form (tau P)) (dXh s),
                    AssembleL l_form (dXh s), UpdateInv, Solve, SetDeformation d]
                    @ (if i_now s mod 10 = 0 then [Redraw] else [])\<rparr>"
  using assms
  by (auto simp: mcf_body_def bindE_eq_Inr M_Assemble_def l_Assemble_def Minv_Update_def
      solve_Xh_def set_dXh_def print_t_def redraw_def advance_def split: sum.splits)

lemma mcf_body_run:
  assumes "asm_bf P (M_form (tau P)) (dXh s) = Inr A"
    and "asm_lf P l_form (dXh s) = Inr b"
    and "Inverse (mcf_solver P) A (inv_free (Minv s)) = Inr iv"
    and "apply_inverse iv b = Inr X"
    and "vsub X (Idh P) = Inr d"
  shows "mcf_body P s =
         Inr \<lparr>t_now = t_now s + tau P, i_now = i_now s + 1, Xh = X, dXh = d, M_mat = A,
                 l_vec = b, Minv = iv,
                 events = events s @ [Print (t_now s), AssembleM (M_form (tau P)) (dXh s),
                    AssembleL l_form (dXh s), UpdateInv, Solve, SetDeformation d]
                    @ (if i_now s mod 10 = 0 then [Redraw] else [])\<rparr>"
  using assms
  by (simp add: mcf_body_def M_Assemble_def l_Assemble_def Minv_Update_def
      solve_Xh_def set_dXh_def print_t_def redraw_def advance_def)

lemma mcf_body_stale:
  "mcf_body P (s\<lparr>M_mat := A0, l_vec := b0, Minv := (Minv s)\<lparr>inv_fact := B0\<rparr>\<rparr>) = mcf_body P s"
  by (simp add: mcf_body_def bindE_def M_Assemble_def l_Assemble_def Minv_Update_def
      solve_Xh_def set_dXh_def print_t_def redraw_def advance_def split: sum.splits)

lemma monitor_run_append:
  "monitor_run tau' m (es @ fs) =
   (case monitor_run tau' m es of None \<Rightarrow> None | Some m' \<Rightarrow> monitor_run tau' m' fs)"
  by (induction es arbitrary: m) (auto split: option.splits)

lemma monitor_pass:
  "monitor_run tau' (stale d0) ([Print x, AssembleM (M_form tau') d0, AssembleL l_form d0, UpdateInv, Solve,
       SetDeformation d] @ (if c then [Redraw] else [])) = Some (stale d)"
  by (simp add: stale_def)

lemma iterate_monitor:
  "iterate k (mcf_body P) s = Inr s' \<Longrightarrow>
   \<exists>es. events s' = events s @ es \<and> monitor_run (tau P) (stale (dXh s)) es = Some (stale (dXh s'))"
proof (induction k arbitrary: s)
  case 0
  then show ?case by simp
next
  case (Suc k)
  then obtain s1 where s1: "mcf_body P s = Inr s1" "iterate k (mcf_body P) s1 = Inr s'"
    by (auto split: sum.splits)
  from mcf_body_Inr [OF s1(1)] obtain es1 where
    e1: "events s1 = events s @ es1" "monitor_run (tau P) (stale (dXh s)) es1 = Some (stale (dXh s1))"
    using monitor_pass [of "tau P" "dXh s"] by force
  from Suc.IH [OF s1(2)] obtain es2 where
    e2: "events s' = events s1 @ es2" "monitor_run (tau P) (stale (dXh s1)) es2 = Some (stale (dXh s'))"
    by blast
  from e1 e2 have "events s' = events s @ (es1 @ es2)"
    "monitor_run (tau P) (stale (dXh s)) (es1 @ es2) = Some (stale (dXh s'))"
    by (simp_all add: monitor_run_append)
  then show ?case by blast
qed

lemma mcf_body_time:
  "mcf_body P s = Inr s' \<Longrightarrow> t_now s' = t_now s + tau P"
  using mcf_body_Inr [of P s s'] by auto

lemma mcf_loop_iterate:
  assumes "0 < tau P"
  shows "\<exists>k. mcf_loop P s = Some (iterate k (mcf_body P) s)"
proof (induction "nat \<lceil>(Tend P - t_now s) / tau P\<rceil>" arbitrary: s rule: less_induct)
  case less
  show ?case
  proof (cases "t_now s \<le> Tend P - tau P")
    case False
    then have "mcf_loop P s = Some (iterate 0 (mcf_body P) s)"
      by (simp add: mcf_loop.simps [of P s])
    then show ?thesis by blast
  next
    case True
    show ?thesis
    proof (cases "mcf_body P s")
      case (Inl e)
      with True have "mcf_loop P s = Some (iterate 1 (mcf_body P) s)"
        by (simp add: mcf_loop.simps [of P s])
      then show ?thesis by blast
    next
      case (Inr s1)
      from mcf_body_time [OF Inr] have t1: "t_now s1 = t_now s + tau P" .
      have "(Tend P - t_now s1) / tau P = (Tend P - t_now s) / tau P - 1"
        using assms t1 by (simp add: field_simps)
      moreover have "1 \<le> (Tend P - t_now s) / tau P"
        using True assms by (simp add: pos_le_divide_eq)
      ultimately have "nat \<lceil>(Tend P - t_now s1) / tau P\<rceil> < nat \<lceil>(Tend P - t_now s) / tau P\<rceil>"
        by (simp add: nat_less_iff)
      from less [OF this] obtain k where "mcf_loop P s1 = Some (iterate k (mcf_body P) s1)"
        by blast
      with True Inr have "mcf_loop P s = Some (iterate (Suc k) (mcf_body P) s)"
        by (simp add: mcf_loop.simps [of P s])
      then show ?thesis by blast
    qed
  qed
qed

lemma ex_setup: "mcf_setup ex_P [True, True] [1, 2] [0, 0] = Inr ex_s0"
  by (simp add: mcf_setup_def ex_P_def ex_s0_def Inverse_def free_block_def free_list_def upt_rec
      entry_def solver2_def)

lemma ex_V: "VectorH1 ex_basis1 2 ex_mesh 2 [] = Inr \<lparr>ndof = 2, el_dofs = [[0, 1]], free = [True, True]\<rparr>"
  by (simp add: VectorH1_def H1_no_dirichlet ex_basis1_def upt_rec eval_nat_numeral)

lemma ex_right_inverse2: "right_inverse [[2, 0], [0, 2]] [[1/2, 0], [0, 1/2]]"
  by (simp add: right_inverse_def upt_rec lessThan_Suc eval_nat_numeral)

lemma monitor_rejects_stale:
  "monitor_run tau' (stale d) [Solve] = None"
  "d' \<noteq> d \<Longrightarrow> monitor_run tau' (stale d)
     [AssembleM (M_form tau') d, AssembleL l_form d, UpdateInv, SetDeformation d', Solve] = None"
  "d' \<noteq> d \<Longrightarrow> monitor_run tau' (stale d)
     [AssembleM (M_form tau') d, AssembleL l_form d, UpdateInv, Solve, SetDeformation d',
      AssembleL l_form d', UpdateInv, Solve] = None"
  "monitor_run tau' (stale d)
     [AssembleM (M_form tau') d, AssembleL l_form d, Solve] = None"
  by (simp_all add: stale_def)

lemma free_list_ex2: "free_list [True, True] = [0, 1]"
  by (simp add: free_list_def upt_rec)

lemma ex_asm_bf: "asm_bf ex_P (M_form (tau ex_P)) (dXh ex_s0) = Inr ex_A1"
  by (simp add: ex_P_def ex_s0_def ex_A1_def)

lemma ex_asm_lf: "asm_lf ex_P l_form (dXh ex_s0) = Inr [1, 2]"
  by (simp add: ex_P_def ex_s0_def)

lemma ex_block1: "free_block ex_A1 [True, True] = [[2, 0], [0, 2]]"
  by (simp add: free_block_def free_list_ex2 entry_def ex_A1_def)

lemma ex_solver2: "solver2 [[2, 0], [0, 2]] = Some [[1/2, 0], [0, 1/2]]"
  by (simp add: solver2_def)

lemma ex_Minv_Update: "Inverse (mcf_solver ex_P) ex_A1 (inv_free (Minv ex_s0)) = Inr \<lparr>inv_free = [True, True], inv_fact = [[1/2, 0], [0, 1/2]]\<rparr>"
proof -
  have "mcf_solver ex_P = solver2" "inv_free (Minv ex_s0) = [True, True]" "height ex_A1 = 2" "width ex_A1 = 2"
    by (simp_all add: ex_P_def ex_s0_def ex_A1_def)
  then show ?thesis by (simp add: Inverse_def ex_block1 ex_solver2)
qed

lemma ex_solve: "apply_inverse \<lparr>inv_free = [True, True], inv_fact = [[1/2, 0], [0, 1/2]]\<rparr> [1, 2] = Inr [1/2, 1]"
  by (simp add: apply_inverse_def free_list_ex2 upt_rec)

lemma ex_vsub: "vsub [1/2, 1] (Idh ex_P) = Inr [-1/2, -1]"
  by (simp add: vsub_def ex_P_def upt_rec)

lemma ex_body1: "mcf_body ex_P ex_s0 = Inr ex_s1"
proof -
  have "t_now ex_s0 + tau ex_P = 1/4" "i_now ex_s0 + 1 = 1" "events ex_s0 = [AssembleM (M_form (1/4)) [0, 0], AssembleL l_form [0, 0]]"
    "tau ex_P = 1/4" "dXh ex_s0 = [0, 0]" "t_now ex_s0 = 0" "i_now ex_s0 mod 10 = 0"
    by (simp_all add: ex_P_def ex_s0_def)
  with mcf_body_run [OF ex_asm_bf ex_asm_lf ex_Minv_Update ex_solve ex_vsub] show ?thesis
    by (simp add: ex_s1_def)
qed

lemma mcf_loop_monitor:
  assumes "mcf_loop P s = Some r"
  shows "\<forall>s'. r = Inr s' \<longrightarrow>
           (\<exists>es. events s' = events s @ es
                \<and> monitor_run (tau P) (stale (dXh s)) es = Some (stale (dXh s')))"
proof (rule mcf_loop.raw_induct
    [of "\<lambda>P s r. \<forall>s'. r = Inr s' \<longrightarrow>
           (\<exists>es. events s' = events s @ es
                \<and> monitor_run (tau P) (stale (dXh s)) es = Some (stale (dXh s')))",
     OF _ assms], intro allI impI)
  fix loop P s r and s' :: mcf_state
  assume IH: "\<And>P s r. loop P s = Some r \<Longrightarrow> \<forall>s'. r = Inr s' \<longrightarrow>
           (\<exists>es. events s' = events s @ es
                \<and> monitor_run (tau P) (stale (dXh s)) es = Some (stale (dXh s')))"
    and step: "(if t_now s \<le> Tend P - tau P
      then case mcf_body P s of Inl e \<Rightarrow> Some (Inl e) | Inr s' \<Rightarrow> loop P s'
      else Some (Inr s)) = Some r"
    and r: "r = Inr s'"
  show "\<exists>es. events s' = events s @ es
             \<and> monitor_run (tau P) (stale (dXh s)) es = Some (stale (dXh s'))"
  proof (cases "t_now s \<le> Tend P - tau P")
    case False
    with step r have "s' = s" by simp
    then show ?thesis by simp
  next
    case True
    show ?thesis
    proof (cases "mcf_body P s")
      case (Inl e)
      with True step r show ?thesis by simp
    next
      case (Inr s1)
      with True step have "loop P s1 = Some r" by simp
      from IH [OF this] r obtain es2 where
        e2: "events s' = events s1 @ es2"
          "monitor_run (tau P) (stale (dXh s1)) es2 = Some (stale (dXh s'))"
        by blast
      from iterate_monitor [of 1 P s s1] Inr obtain es1 where
        e1: "events s1 = events s @ es1"
          "monitor_run (tau P) (stale (dXh s)) es1 = Some (stale (dXh s1))"
        by auto
      from e1 e2 have "events s' = events s @ (es1 @ es2)"
        "monitor_run (tau P) (stale (dXh s)) (es1 @ es2) = Some (stale (dXh s'))"
        by (simp_all add: monitor_run_append)
      then show ?thesis by blast
    qed
  qed
qed

section \<open>Linear combination of matrices sharing a pattern\<close>

text \<open>
  C1. For two matrices with identical sparsity pattern (the mass matrix \<open>m\<close> and the
  convection-diffusion matrix \<open>a\<close>, both assembled with \<^verbatim>\<open>symmetric=False\<close> on the same
  space), setting the value array of the pattern copy \<open>mstar\<close> to
  \<^verbatim>\<open>m.mat.AsVector() + dt * a.mat.AsVector()\<close> succeeds and yields the matrix \<open>M + dt * A\<close>:
  \<open>mstar\<close> has the pattern (and shape) of \<open>m\<close>, no pattern merge takes place, and
  every entry is \<open>mstar[r, c] = m[r, c] + dt * a[r, c]\<close>; in particular at every pair of the
  shared pattern. The content of the freshly created value array does not matter.
\<close>

theorem mstar_is_M_plus_dt_A:
  assumes "wf_mat m" "wf_mat a" "pattern a = pattern m"
  shows "\<exists>mstar. build_mstar junk h m a = Inr mstar
           \<and> pattern mstar = pattern m \<and> height mstar = height m \<and> width mstar = width m
           \<and> wf_mat mstar
           \<and> (\<forall>r c. entry mstar r c = entry m r c + h * entry a r c)
           \<and> (\<forall>(r, c) \<in> set (pattern m). entry mstar r c = entry m r c + h * entry a r c)"
proof -
  let ?ms = "m\<lparr>vals := map (\<lambda>i. vals m ! i + h * vals a ! i) [0..<length (pattern m)]\<rparr>"
  have e: "entry ?ms r c = entry m r c + h * entry a r c" for r c
  proof (cases "index_of (r, c) (pattern m)")
    case None
    then show ?thesis using assms by (simp add: entry_def)
  next
    case (Some k)
    then have "k < length (pattern m)" by (rule index_of_less)
    then show ?thesis using Some assms by (simp add: entry_def)
  qed
  have "build_mstar junk h m a = Inr ?ms"
    using assms by (rule build_mstar_Inr)
  moreover have "wf_mat ?ms" by (simp add: wf_mat_def)
  ultimately show ?thesis using e by auto
qed

theorem mstar_is_M_plus_dt_A_witness:
  "\<exists>mstar. build_mstar (\<lambda>_. 7) (1/2)
       \<lparr>height = 2, width = 2, pattern = [(0,0), (0,1), (1,1)], vals = [1, 2, 3]\<rparr>
       \<lparr>height = 2, width = 2, pattern = [(0,0), (0,1), (1,1)], vals = [4, 0, 8]\<rparr> = Inr mstar
     \<and> pattern mstar = [(0,0), (0,1), (1,1)]
     \<and> entry mstar 0 0 = 3 \<and> entry mstar 0 1 = 2 \<and> entry mstar 1 1 = 7 \<and> entry mstar 1 0 = 0"
proof -
  let ?m = "\<lparr>height = 2, width = 2, pattern = [(0,0), (0,1), (1,1)], vals = [1, 2, 3::real]\<rparr>"
  let ?a = "\<lparr>height = 2, width = 2, pattern = [(0,0), (0,1), (1,1)], vals = [4, 0, 8::real]\<rparr>"
  have 1: "wf_mat ?m" and 2: "wf_mat ?a" and 3: "pattern ?a = pattern ?m"
    by (simp_all add: wf_mat_def)
  from mstar_is_M_plus_dt_A [OF 1 2 3, of "\<lambda>_. 7" "1/2"]
  obtain ms where ms: "build_mstar (\<lambda>_. 7) (1/2) ?m ?a = Inr ms" "pattern ms = pattern ?m"
    and e: "\<And>r c. entry ms r c = entry ?m r c + (1/2) * entry ?a r c"
    by blast
  have "entry ms 0 0 = 3" "entry ms 0 1 = 2" "entry ms 1 1 = 7" "entry ms 1 0 = 0"
    unfolding e by (simp_all add: entry_def)
  with ms show ?thesis by simp
qed

section \<open>The implicit Euler step\<close>

text \<open>
  C2. One pass of the time loop changes the solution vector by the free-dof solve and by
  nothing else. With \<open>mstar\<close> built as \<open>M + dt * A\<close> and \<open>invmstar\<close> its inverse on the
  free dofs (from a factorization kernel that really inverts the free-free block), the pass
  computes \<open>res = dt * f - dt * A * u\<close>, the increment \<open>delta = invmstar * res\<close> satisfies
  \<open>(M + dt * A) delta = res\<close> in every free row and is zero at every constrained dof, and
  the new solution vector is \<open>u + delta\<close>, entry by entry. The body of
  \<^verbatim>\<open>TimeSteppingVTK\<close> performs the same update.
\<close>

theorem euler_step_free_solve:
  assumes sizes: "length (f_vec E) = n" "height (a_mat E) = n" "width (a_mat E) = n"
      "length (gfu s) = n" "length fd = n"
    and pat: "pattern (a_mat E) = pattern m"
    and ms: "build_mstar junk (dt E) m (a_mat E) = Inr mstar"
    and iv: "Inverse solver mstar fd = Inr invmstar"
    and sol: "right_inverse (free_block mstar fd) (inv_fact invmstar)"
    and si: "sample_int \<noteq> 0"
  shows "\<exists>res delta s' s''.
           residual E (gfu s) = Inr res \<and> length res = n
         \<and> (\<forall>i<n. res ! i = dt E * f_vec E ! i - dt E * (\<Sum>j<n. entry (a_mat E) i j * gfu s ! j))
         \<and> apply_inverse invmstar res = Inr delta \<and> length delta = n
         \<and> (\<forall>i<n. fd ! i \<longrightarrow>
               (\<Sum>j<n. (entry m i j + dt E * entry (a_mat E) i j) * delta ! j) = res ! i)
         \<and> (\<forall>i<n. \<not> fd ! i \<longrightarrow> delta ! i = 0)
         \<and> euler_update E invmstar (gfu s) = vadd (gfu s) delta
         \<and> TimeStepping_body E invmstar sample_int s = Inr s'
         \<and> length (gfu s') = n
         \<and> (\<forall>i<n. gfu s' ! i = gfu s ! i + delta ! i)
         \<and> TimeSteppingVTK_body E invmstar sample_int s = Inr s''
         \<and> gfu s'' = gfu s'"
proof -
  let ?u = "gfu s"
  let ?res = "map (\<lambda>i. dt E * f_vec E ! i
                       - dt E * sum_list (map (\<lambda>j. entry (a_mat E) i j * ?u ! j) [0..<length ?u]))
                  [0..<length (f_vec E)]"
  from build_mstar_shape [OF ms] pat have wfa: "wf_mat (a_mat E)" by (simp add: wf_mat_def)
  have res: "residual E ?u = Inr ?res"
    using wfa sizes by (intro residual_Inr) simp_all
  have lres: "length ?res = n" using sizes by simp
  have resi: "?res ! i = dt E * f_vec E ! i - dt E * (\<Sum>j<n. entry (a_mat E) i j * ?u ! j)"
    if "i < n" for i
    using that sizes by (simp add: sum_list_upt_sum)
  from iv have fr: "inv_free invmstar = fd" by (rule Inverse_free)
  from iv have shape: "height mstar = length fd" "width mstar = length fd"
    by (auto simp: Inverse_def split: if_splits)
  from apply_inverse_Inr [of ?res invmstar] lres fr sizes
  obtain delta where d: "apply_inverse invmstar ?res = Inr delta" "length delta = n"
    by auto
  have solve: "(\<Sum>j<n. (entry m i j + dt E * entry (a_mat E) i j) * delta ! j) = ?res ! i"
    if "i < n" "fd ! i" for i
  proof -
    have "(\<Sum>j<length fd. entry mstar i j * delta ! j) = ?res ! i"
      using that sizes by (intro free_solve_residual [OF shape sol fr d(1)]) simp_all
    then show ?thesis using sizes by (simp add: build_mstar_entry [OF ms pat])
  qed
  have zero: "delta ! i = 0" if "i < n" "\<not> fd ! i" for i
    using apply_inverse_constrained [OF d(1), of i] that lres fr by simp
  let ?u' = "map (\<lambda>i. ?u ! i + delta ! i) [0..<length ?u]"
  have eu: "euler_update E invmstar ?u = vadd ?u delta"
    using res d by (simp add: euler_update_def)
  have va: "vadd ?u delta = Inr ?u'" using d sizes by (simp add: vadd_def)
  obtain s' where s': "TimeStepping_body E invmstar sample_int s = Inr s'" "gfu s' = ?u'"
    using eu va si by (simp add: TimeStepping_body_def)
  obtain s'' where s'': "TimeSteppingVTK_body E invmstar sample_int s = Inr s''" "gfu s'' = ?u'"
    using eu va si by (simp add: TimeSteppingVTK_body_def Let_def)
  have "length (gfu s') = n" "\<forall>i<n. gfu s' ! i = gfu s ! i + delta ! i" "gfu s'' = gfu s'"
    using s' s'' sizes by simp_all
  with res lres resi d solve zero eu s' s'' show ?thesis by blast
qed

theorem euler_step_free_solve_witness:
  "\<exists>s'. TimeStepping_body ex_env ex_inv 1
          \<lparr>cnt = 0, time = Finite 0, gfu = [0, 3], printed = [], gfut = [[0, 3]], vtk = []\<rparr> = Inr s'
        \<and> gfu s' ! 0 = - 1 / 2 \<and> gfu s' ! 1 = 3"
proof -
  let ?s = "\<lparr>cnt = 0, time = Finite 0, gfu = [0, 3], printed = [], gfut = [[0, 3]], vtk = []\<rparr>"
  let ?ms = "\<lparr>height = 2, width = 2, pattern = [(0,0), (0,1), (1,0), (1,1)], vals = [2, 1/2, 1/2, 2]\<rparr>"
  have sizes: "length (f_vec ex_env) = 2" "height (a_mat ex_env) = 2" "width (a_mat ex_env) = 2"
    "length (gfu ?s) = 2" "length [True, False] = 2"
    by (simp_all add: ex_env_def ex_a_def)
  have pat: "pattern (a_mat ex_env) = pattern ex_m" by (simp add: ex_env_def ex_a_def ex_m_def)
  have ms: "build_mstar (\<lambda>_. 0) (dt ex_env) ex_m (a_mat ex_env) = Inr ?ms"
    using ex_mstar by (simp add: ex_env_def)
  have si: "(1::int) \<noteq> 0" by simp
  from euler_step_free_solve [OF sizes pat ms ex_Inverse ex_right_inverse si]
  obtain res delta s' where
    r: "residual ex_env (gfu ?s) = Inr res" and d: "apply_inverse ex_inv res = Inr delta"
    and s': "TimeStepping_body ex_env ex_inv 1 ?s = Inr s'"
    and u: "\<forall>i<2. gfu s' ! i = gfu ?s ! i + delta ! i"
    by blast
  from r have "res = [-1, -3]" using ex_residual by simp
  with d have "delta = [-1/2, 0]" using ex_apply_inverse by simp
  with u have "gfu s' ! 0 = - 1 / 2" "gfu s' ! 1 = 3" by simp_all
  with s' show ?thesis by blast
qed

section \<open>Termination and step count of the time loop\<close>

text \<open>
  C3. For every positive step size \<open>dt\<close> and all \<open>t0\<close>, \<open>tend\<close> (and any
  \<open>nsamples\<close>), \<^verbatim>\<open>TimeStepping\<close> returns or raises: it never runs forever. The loop
  makes a pass exactly when \<^verbatim>\<open>time < tend - 0.5 * dt\<close> holds as the program evaluates it,
  in binary64 with the product and the difference rounded, and is finished otherwise.
  Started with the counter at zero and \<open>t0 = 0\<close>, it makes \<open>n\<close> passes, \<open>n\<close> the least
  natural number whose rounded product \<^verbatim>\<open>n * dt\<close> is not below the rounded threshold
  (fewer only if a pass raises); for another \<open>t0\<close> it makes no pass when \<open>t0\<close> is not
  below the threshold, and otherwise as many as the least \<open>n \<ge> 1\<close> of that kind, since the
  time is recomputed as \<^verbatim>\<open>cnt * dt\<close>. Every pass that completes advances the counter by
  one and prints one time value.
\<close>

theorem TimeStepping_terminates_half_step:
  assumes "0 < dt E"
  shows "(\<exists>r. TimeStepping E Set gfu0 invmstar initial_cond t0 tend nsamples = Some r)
       \<and> (\<forall>s. TimeStepping_loop E invmstar tend sample_int s =
               (if fless (time s) (fsub (rnd tend) (fmul (Finite 0.5) (Finite (dt E))))
                then (case TimeStepping_body E invmstar sample_int s of
                        Inl e \<Rightarrow> Some (Inl e)
                      | Inr s' \<Rightarrow> TimeStepping_loop E invmstar tend sample_int s')
                else Some (Inr s)))
       \<and> (\<forall>s. cnt s = 0 \<and> time s = Finite 0 \<longrightarrow>
             TimeStepping_loop E invmstar tend sample_int s =
             Some (iterate (LEAST n. \<not> fless (fmul (rnd (real n)) (Finite (dt E)))
                                        (fsub (rnd tend) (fmul (Finite 0.5) (Finite (dt E)))))
                     (TimeStepping_body E invmstar sample_int) s))
       \<and> (\<forall>s. cnt s = 0 \<longrightarrow>
             TimeStepping_loop E invmstar tend sample_int s =
             Some (iterate (if fless (time s) (fsub (rnd tend) (fmul (Finite 0.5) (Finite (dt E))))
                            then (LEAST n. 1 \<le> n
                                    \<and> \<not> fless (fmul (rnd (real n)) (Finite (dt E)))
                                          (fsub (rnd tend) (fmul (Finite 0.5) (Finite (dt E)))))
                            else 0)
                     (TimeStepping_body E invmstar sample_int) s))
       \<and> (\<forall>n s s'. iterate n (TimeStepping_body E invmstar sample_int) s = Inr s' \<longrightarrow>
             cnt s' = cnt s + n \<and> length (printed s') = length (printed s) + n)"
proof -
  have start: "TimeStepping_loop E invmstar tend si s
         = Some (iterate (if loop_guard E tend (time s)
                          then (LEAST n. 1 \<le> n \<and> \<not> loop_guard E tend (loop_time E n)) else 0)
                   (TimeStepping_body E invmstar si) s)" if "cnt s = 0" for s si
    using TimeStepping_loop_start [OF assms that] .
  have 1: "\<exists>r. TimeStepping E Set gfu0 invmstar initial_cond t0 tend nsamples = Some r"
  proof (cases "sample_interval tend (dt E) nsamples")
    case (Inl e)
    then show ?thesis by (simp add: TimeStepping_def Let_def)
  next
    case (Inr si)
    then show ?thesis by (simp add: TimeStepping_def Let_def start)
  qed
  have 2: "TimeStepping_loop E invmstar tend sample_int s =
               (if loop_guard E tend (time s)
                then (case TimeStepping_body E invmstar sample_int s of
                        Inl e \<Rightarrow> Some (Inl e)
                      | Inr s' \<Rightarrow> TimeStepping_loop E invmstar tend sample_int s')
                else Some (Inr s))" for s
    by (rule TimeStepping_loop.simps)
  have 3: "TimeStepping_loop E invmstar tend sample_int s =
             Some (iterate (LEAST n. \<not> loop_guard E tend (loop_time E n))
                     (TimeStepping_body E invmstar sample_int) s)"
    if "cnt s = 0 \<and> time s = Finite 0" for s
    using TimeStepping_loop_zero [OF assms, of s] that by simp
  have 5: "cnt s' = cnt s + n \<and> length (printed s') = length (printed s) + n"
    if "iterate n (TimeStepping_body E invmstar sample_int) s = Inr s'" for n s s'
    using iterate_cnt [of "TimeStepping_body E invmstar sample_int" n s s'] iterate_printed [OF that]
      TimeStepping_body_cnt that by blast
  show ?thesis
    using 1 2 3 start [of _ sample_int] 5 unfolding loop_guard_def loop_time_def by blast
qed

theorem TimeStepping_terminates_half_step_witness:
  "0 < dt ex_env
   \<and> TimeStepping_loop ex_env ex_inv 2 1
        \<lparr>cnt = 0, time = Finite 0, gfu = [0, 3], printed = [], gfut = [[0, 3]], vtk = []\<rparr>
      = Some (iterate 4 (TimeStepping_body ex_env ex_inv 1)
          \<lparr>cnt = 0, time = Finite 0, gfu = [0, 3], printed = [], gfut = [[0, 3]], vtk = []\<rparr>)
   \<and> (\<exists>s'. TimeStepping ex_env ex_Set [0, 3] ex_inv None 0 2 10 = Some (Inr s')
           \<and> cnt s' = 4 \<and> time s' = Finite 2
           \<and> printed s' = [Finite 0, Finite (1/2), Finite 1, Finite (3/2)])"
proof -
  let ?s0 = "\<lparr>cnt = 0, time = Finite 0, gfu = [0, 3], printed = [], gfut = [[0, 3]], vtk = []\<rparr>"
  have pos: "0 < dt ex_env" and h: "dt ex_env = 1 / 2" by (simp_all add: ex_env_def)
  have L: "(LEAST n. \<not> fless (fmul (rnd (real n)) (Finite (dt ex_env)))
                        (fsub (rnd 2) (fmul (Finite 0.5) (Finite (dt ex_env))))) = 4"
    using half_passes [OF h] by (simp add: loop_guard_def loop_time_def)
  have c: "cnt ?s0 = 0 \<and> time ?s0 = Finite 0" by simp
  from TimeStepping_terminates_half_step [OF pos, of ex_Set "[0, 3]" ex_inv None 0 2 10 1]
  have run: "TimeStepping_loop ex_env ex_inv 2 1 ?s0
             = Some (iterate 4 (TimeStepping_body ex_env ex_inv 1) ?s0)"
    using c unfolding L by blast
  have si: "sample_interval 2 (dt ex_env) 10 = Inr 1"
    by (simp add: sample_interval_def ex_env_def)
  have ts: "TimeStepping ex_env ex_Set [0, 3] ex_inv None 0 2 10
            = Some (iterate 4 (TimeStepping_body ex_env ex_inv 1) ?s0)"
    using run si by (simp add: TimeStepping_def Let_def)
  have "\<exists>s'. iterate 4 (TimeStepping_body ex_env ex_inv 1) ?s0 = Inr s'
             \<and> cnt s' = 4 \<and> time s' = Finite 2
             \<and> printed s' = [Finite 0, Finite (1/2), Finite 1, Finite (3/2)]"
    by (simp add: eval_nat_numeral TimeStepping_body_def ex_euler_update half_loop_time [OF h])
  with pos run ts show ?thesis by auto
qed

text \<open>
  The number of passes is not always the least \<open>n\<close> with \<open>n * dt \<ge> tend - dt / 2\<close> in
  exact arithmetic. With \<^verbatim>\<open>dt = 0.001\<close>, \<^verbatim>\<open>tend = 0.0085\<close> and \<open>t0 = 0\<close> the loop
  makes 8 passes: the rounded product \<^verbatim>\<open>8 * dt\<close> is the double \<^verbatim>\<open>0.008\<close>, which is also
  the rounded threshold, while the exact product \<open>8 * dt\<close> is below the exact
  \<open>tend - dt / 2\<close>, so that the least such \<open>n\<close> is larger than 8.
\<close>

theorem TimeStepping_exact_count_counterexample:
  "0 < dt cx_env
   \<and> map_option (map_sum id cnt) (TimeStepping cx_env ex_Set [0, 0] ex_inv None 0 cx_tend 10)
     = Some (Inr 8)
   \<and> 8 * dt cx_env < cx_tend - dt cx_env / 2"
proof -
  let ?s0 = "\<lparr>cnt = 0, time = Finite 0, gfu = [0, 0], printed = [], gfut = [[0, 0]], vtk = []\<rparr>"
  have pos: "0 < dt cx_env" by (simp add: cx_env_def)
  have z: "zeros 2 = [0, 0]" by (simp add: zeros_def eval_nat_numeral)
  have si: "sample_interval cx_tend (dt cx_env) 10 = Inr 1"
    by (simp add: sample_interval_def cx_env_def cx_tend_def)
  have run: "TimeStepping cx_env ex_Set [0, 0] ex_inv None 0 cx_tend 10
             = Some (iterate 8 (TimeStepping_body cx_env ex_inv 1) ?s0)"
    using TimeStepping_loop_zero [OF pos, of ?s0 ex_inv cx_tend 1] si
    by (simp add: TimeStepping_def Let_def cx_passes)
  have h: "f_vec cx_env = zeros 2" "height (a_mat cx_env) = 2" "width (a_mat cx_env) = 2"
    "length (inv_free ex_inv) = 2" "(1::int) \<noteq> 0"
    by (simp_all add: z cx_env_def ex_a_def ex_inv_def)
  obtain s' where s': "iterate 8 (TimeStepping_body cx_env ex_inv 1) ?s0 = Inr s'"
    using iterate_gfu_zero [OF h, of ?s0 8] by (auto simp: z)
  from iterate_cnt [of "TimeStepping_body cx_env ex_inv 1" 8 ?s0 s', OF _ s']
  have "cnt s' = 8" using TimeStepping_body_cnt by simp
  with run s' have "map_option (map_sum id cnt) (TimeStepping cx_env ex_Set [0, 0] ex_inv None 0 cx_tend 10)
     = Some (Inr 8)" by simp
  moreover have "8 * dt cx_env < cx_tend - dt cx_env / 2" by (simp add: cx_env_def cx_tend_def)
  ultimately show ?thesis using pos by simp
qed

section \<open>Constrained dofs under the free-dof solve\<close>

text \<open>
  C4. The solve restricted to the free dofs leaves the constrained entries alone: with
  shapes that fit and a free-free block the kernel can factorize, the vector
  \<open>Inverse(freedofs) * r\<close> is zero at every constrained dof, so after
  \<^verbatim>\<open>gfu.vec.data += a.mat.Inverse(freedofs=fes.FreeDofs()) * r\<close> every constrained entry of
  \<^verbatim>\<open>gfu.vec\<close> still holds the value it had before (the boundary value written by
  \<^verbatim>\<open>gfu.Set(g, BND)\<close>), and the vector keeps its length.
\<close>

theorem dirichlet_solve_keeps_constrained:
  assumes "height A = length fd" "width A = length fd" "length f = length fd" "length u = length fd"
    and "solver (free_block A fd) = Some B"
  shows "\<exists>r iv d u'. vsub f (map (\<lambda>i. sum_list (map (\<lambda>j. entry A i j * u ! j) [0..<length u])) [0..<length fd]) = Inr r
           \<and> Inverse solver A fd = Inr iv
           \<and> apply_inverse iv r = Inr d
           \<and> (\<forall>i < length fd. \<not> fd ! i \<longrightarrow> d ! i = 0)
           \<and> solve_dirichlet solver A fd f u = Inr u'
           \<and> length u' = length u
           \<and> (\<forall>i < length fd. \<not> fd ! i \<longrightarrow> u' ! i = u ! i)
           \<and> (\<forall>i < length fd. u' ! i = u ! i + d ! i)"
proof -
  let ?Au = "map (\<lambda>i. sum_list (map (\<lambda>j. entry A i j * u ! j) [0..<length u])) [0..<length fd]"
  let ?iv = "\<lparr>inv_free = fd, inv_fact = B\<rparr>"
  have mv: "matvec A u = Inr ?Au" using assms by (simp add: matvec_def)
  obtain r where r: "vsub f ?Au = Inr r" "length r = length fd"
    using assms by (simp add: vsub_def)
  have iv: "Inverse solver A fd = Inr ?iv" using assms by (simp add: Inverse_def)
  from apply_inverse_Inr [of r ?iv] r obtain d where d: "apply_inverse ?iv r = Inr d" "length d = length fd"
    by auto
  have z: "d ! i = 0" if "i < length fd" "\<not> fd ! i" for i
    using apply_inverse_constrained [OF d(1), of i] that r by simp
  let ?u' = "map (\<lambda>i. u ! i + d ! i) [0..<length u]"
  have s: "solve_dirichlet solver A fd f u = Inr ?u'"
    using mv r iv d assms by (simp add: solve_dirichlet_def vadd_def)
  have "\<forall>i < length fd. \<not> fd ! i \<longrightarrow> ?u' ! i = u ! i" using z assms by simp
  moreover have "\<forall>i < length fd. ?u' ! i = u ! i + d ! i" using assms by simp
  ultimately show ?thesis using r iv d z s by auto
qed

theorem dirichlet_solve_keeps_constrained_witness:
  "\<exists>u'. solve_dirichlet ex_solver ex_a [True, False] [1, 1] [0, 3] = Inr u'
        \<and> length u' = 2 \<and> u' ! 1 = 3"
proof -
  have h: "height ex_a = length [True, False]" "width ex_a = length [True, False]"
    "length [1, 1 :: real] = length [True, False]" "length [0, 3 :: real] = length [True, False]"
    by (simp_all add: ex_a_def)
  have b: "ex_solver (free_block ex_a [True, False]) = Some [[1/2]]"
    by (simp add: ex_solver_def free_block_def free_list_ex entry_def ex_a_def)
  from dirichlet_solve_keeps_constrained
    [of ex_a "[True, False]" "[1, 1]" "[0, 3]" ex_solver "[[1/2]]", OF h b]
  obtain u' where u': "solve_dirichlet ex_solver ex_a [True, False] [1, 1] [0, 3] = Inr u'"
    "length u' = length [0, 3 :: real]"
    "\<forall>i < length [True, False]. \<not> [True, False] ! i \<longrightarrow> u' ! i = [0, 3] ! i"
    by blast
  from u'(3) have "u' ! 1 = 3" by simp
  with u' show ?thesis by simp
qed

section \<open>The zero state\<close>

text \<open>
  C8. With zero load vector and zero solution vector the residual is zero, the solve of the
  zero right-hand side returns zero, and the solution is still exactly zero after any
  number of passes of the loop of \<^verbatim>\<open>TimeStepping\<close>; the whole call (positive \<open>dt\<close>
  and \<open>nsamples\<close>, \<open>tend \<ge> 0\<close>) returns with a zero solution vector and only zero
  snapshots.
\<close>

theorem zero_state_preserved:
  assumes "f_vec E = zeros n" "height (a_mat E) = n" "width (a_mat E) = n"
    and "length (inv_free invmstar) = n"
  shows "residual E (zeros n) = Inr (zeros n)
       \<and> apply_inverse invmstar (zeros n) = Inr (zeros n)
       \<and> (\<forall>sample_int s k. sample_int \<noteq> 0 \<and> gfu s = zeros n \<longrightarrow>
            (\<exists>s'. iterate k (TimeStepping_body E invmstar sample_int) s = Inr s' \<and> gfu s' = zeros n))
       \<and> (\<forall>initial_cond t0 tend nsamples.
            0 < dt E \<and> 0 \<le> tend \<and> 0 < nsamples
            \<and> (case initial_cond of None \<Rightarrow> gfu0 | Some c \<Rightarrow> Set c gfu0) = zeros n \<longrightarrow>
            (\<exists>s'. TimeStepping E Set gfu0 invmstar initial_cond t0 tend nsamples = Some (Inr s')
                  \<and> gfu s' = zeros n \<and> (\<forall>u \<in> set (gfut s'). u = zeros n)))"
proof (intro conjI allI impI)
  show "residual E (zeros n) = Inr (zeros n)" by (rule residual_zero [OF assms(1-3)])
  show "apply_inverse invmstar (zeros n) = Inr (zeros n)" by (rule apply_inverse_zero [OF assms(4)])
next
  fix sample_int :: int and s :: ts_state and k
  assume "sample_int \<noteq> 0 \<and> gfu s = zeros n"
  then show "\<exists>s'. iterate k (TimeStepping_body E invmstar sample_int) s = Inr s' \<and> gfu s' = zeros n"
    using iterate_gfu_zero [OF assms] by blast
next
  fix initial_cond :: "'a option" and t0 tend :: real and nsamples :: int
  assume a: "0 < dt E \<and> 0 \<le> tend \<and> 0 < nsamples
            \<and> (case initial_cond of None \<Rightarrow> gfu0 | Some c \<Rightarrow> Set c gfu0) = zeros n"
  then obtain si where si: "sample_interval tend (dt E) nsamples = Inr si" "0 < si"
    using sample_interval_pos [of "dt E" nsamples tend] by blast
  let ?s0 = "\<lparr>cnt = 0, time = Finite t0, gfu = zeros n, printed = [], gfut = [zeros n], vtk = []\<rparr>"
  let ?k = "if loop_guard E tend (time ?s0)
            then (LEAST n. 1 \<le> n \<and> \<not> loop_guard E tend (loop_time E n)) else 0"
  have run: "TimeStepping E Set gfu0 invmstar initial_cond t0 tend nsamples
             = Some (iterate ?k (TimeStepping_body E invmstar si) ?s0)"
    using a si TimeStepping_loop_start [of E ?s0 invmstar tend si]
    by (simp add: TimeStepping_def Let_def)
  have "\<exists>s'. iterate ?k (TimeStepping_body E invmstar si) ?s0 = Inr s' \<and> gfu s' = zeros n
              \<and> (\<forall>u \<in> set (gfut s'). u = zeros n)"
    using si by (intro iterate_zero [OF assms]) simp_all
  with run show "\<exists>s'. TimeStepping E Set gfu0 invmstar initial_cond t0 tend nsamples = Some (Inr s')
                  \<and> gfu s' = zeros n \<and> (\<forall>u \<in> set (gfut s'). u = zeros n)"
    by auto
qed

theorem zero_state_preserved_witness:
  "\<exists>s'. TimeStepping \<lparr>dt = 1/2, f_vec = [0, 0], a_mat = ex_a\<rparr> (\<lambda>c u. c) [5, 5] ex_inv (Some [0, 0]) 0 2 10
         = Some (Inr s')
       \<and> gfu s' = [0, 0] \<and> (\<forall>u \<in> set (gfut s'). u = [0, 0])"
proof -
  let ?E = "\<lparr>dt = 1/2, f_vec = [0, 0], a_mat = ex_a\<rparr>"
  have z: "zeros 2 = [0, 0]" by (simp add: zeros_def eval_nat_numeral)
  have h: "f_vec ?E = zeros 2" "height (a_mat ?E) = 2" "width (a_mat ?E) = 2"
    "length (inv_free ex_inv) = 2"
    by (simp_all add: z ex_a_def ex_inv_def)
  have c: "0 < dt ?E \<and> (0::real) \<le> 2 \<and> (0::int) < 10
           \<and> (case Some [0, 0] of None \<Rightarrow> [5, 5] | Some c \<Rightarrow> (\<lambda>c u. c) c [5, 5]) = zeros 2"
    by (simp add: z)
  from zero_state_preserved [OF h, of "[5, 5]" "\<lambda>c u. c"] c
  show ?thesis unfolding z by blast
qed

section \<open>The two time loops compute the same solution\<close>

text \<open>
  C9. For the same inputs, \<^verbatim>\<open>TimeStepping\<close> and \<^verbatim>\<open>TimeSteppingVTK\<close> behave alike:
  both run forever, or both raise the same exception, or both return, and then with the
  same solution vector, the same counter (the number of passes) and the same time. The
  two may be given different \<open>nsamples\<close> as long as both are positive with \<open>dt > 0\<close> and
  \<open>tend \<ge> 0\<close>; they differ only in the snapshots they hand to their output sinks.
\<close>

theorem TimeStepping_VTK_same_solution:
  assumes "nsamples1 = nsamples2 \<or> (0 < nsamples1 \<and> 0 < nsamples2 \<and> 0 < dt E \<and> 0 \<le> tend)"
  shows "rel_option (rel_sum (=) same_solution)
           (TimeStepping E Set gfu0 invmstar initial_cond t0 tend nsamples1)
           (TimeSteppingVTK E Set gfu0 invmstar initial_cond t0 tend nsamples2)
       \<and> (\<forall>s1 s2. TimeStepping E Set gfu0 invmstar initial_cond t0 tend nsamples1 = Some (Inr s1)
                 \<and> TimeSteppingVTK E Set gfu0 invmstar initial_cond t0 tend nsamples2 = Some (Inr s2)
            \<longrightarrow> gfu s1 = gfu s2 \<and> cnt s1 = cnt s2 \<and> time s1 = time s2)"
proof -
  let ?u0 = "case initial_cond of None \<Rightarrow> gfu0 | Some c \<Rightarrow> Set c gfu0"
  let ?s1 = "\<lparr>cnt = 0, time = Finite t0, gfu = ?u0, printed = [], gfut = [?u0], vtk = []\<rparr>"
  let ?s2 = "\<lparr>cnt = 0, time = Finite t0, gfu = ?u0, printed = [], gfut = [], vtk = [(Finite t0, ?u0)]\<rparr>"
  have same: "same_solution ?s1 ?s2" by (simp add: same_solution_def)
  have rel: "rel_option (rel_sum (=) same_solution)
           (TimeStepping E Set gfu0 invmstar initial_cond t0 tend nsamples1)
           (TimeSteppingVTK E Set gfu0 invmstar initial_cond t0 tend nsamples2)"
    using assms
  proof
    assume eq: "nsamples1 = nsamples2"
    show ?thesis
    proof (cases "sample_interval tend (dt E) nsamples2")
      case (Inl e)
      then show ?thesis using eq by (simp add: TimeStepping_def TimeSteppingVTK_def Let_def)
    next
      case (Inr si)
      then show ?thesis using eq loops_same [OF same, of si si E invmstar tend]
        by (simp add: TimeStepping_def TimeSteppingVTK_def Let_def)
    qed
  next
    assume a: "0 < nsamples1 \<and> 0 < nsamples2 \<and> 0 < dt E \<and> 0 \<le> tend"
    then obtain si1 si2 where si: "sample_interval tend (dt E) nsamples1 = Inr si1" "0 < si1"
      "sample_interval tend (dt E) nsamples2 = Inr si2" "0 < si2"
      using sample_interval_pos [of "dt E" nsamples1 tend] sample_interval_pos [of "dt E" nsamples2 tend]
      by blast
    then have "si1 = 0 \<longleftrightarrow> si2 = 0" by simp
    from loops_same [OF same this, of E invmstar tend] si show ?thesis
      by (simp add: TimeStepping_def TimeSteppingVTK_def Let_def)
  qed
  then show ?thesis by (auto simp: same_solution_def)
qed

theorem TimeStepping_VTK_same_solution_witness:
  "\<exists>s1 s2. TimeStepping ex_env (\<lambda>c u. c) [0, 3] ex_inv None 0 2 10 = Some (Inr s1)
         \<and> TimeSteppingVTK ex_env (\<lambda>c u. c) [0, 3] ex_inv None 0 2 100 = Some (Inr s2)
         \<and> gfu s1 = gfu s2 \<and> cnt s1 = 4 \<and> cnt s2 = 4
         \<and> length (gfut s1) = 5 \<and> length (vtk s2) = 5"
proof -
  have a: "(10::int) = 100 \<or> ((0::int) < 10 \<and> (0::int) < 100 \<and> 0 < dt ex_env \<and> (0::real) \<le> 2)"
    by (simp add: ex_env_def)
  have si: "sample_interval 2 (dt ex_env) 10 = Inr 1" "sample_interval 2 (dt ex_env) 100 = Inr 1"
    by (simp_all add: sample_interval_def ex_env_def)
  have pos: "0 < dt ex_env" and h: "dt ex_env = 1 / 2" by (simp_all add: ex_env_def)
  let ?s1 = "\<lparr>cnt = 0, time = Finite 0, gfu = [0, 3], printed = [], gfut = [[0, 3]], vtk = []\<rparr>"
  let ?s2 = "\<lparr>cnt = 0, time = Finite 0, gfu = [0, 3], printed = [], gfut = [],
              vtk = [(Finite 0, [0, 3])]\<rparr>"
  have g: "loop_guard ex_env 2 (Finite 0)"
    by (simp add: loop_guard_Finite [OF half_threshold(1) [OF h]])
  have r1: "TimeStepping ex_env (\<lambda>c u. c) [0, 3] ex_inv None 0 2 10
        = Some (iterate 4 (TimeStepping_body ex_env ex_inv 1) ?s1)"
    using TimeStepping_loop_start [OF pos, of ?s1 ex_inv 2 1] si g
    unfolding half_passes_from [OF h] by (simp add: TimeStepping_def Let_def)
  have r2: "TimeSteppingVTK ex_env (\<lambda>c u. c) [0, 3] ex_inv None 0 2 100
        = Some (iterate 4 (TimeSteppingVTK_body ex_env ex_inv 1) ?s2)"
    using TimeSteppingVTK_loop_start [OF pos, of ?s2 ex_inv 2 1] si g
    unfolding half_passes_from [OF h] by (simp add: TimeSteppingVTK_def Let_def)
  obtain s1 where s1: "iterate 4 (TimeStepping_body ex_env ex_inv 1) ?s1 = Inr s1"
    "cnt s1 = 4" "length (gfut s1) = 5"
    by (simp add: eval_nat_numeral TimeStepping_body_def ex_euler_update half_loop_time [OF h])
  obtain s2 where s2: "iterate 4 (TimeSteppingVTK_body ex_env ex_inv 1) ?s2 = Inr s2"
    "cnt s2 = 4" "length (vtk s2) = 5"
    by (simp add: eval_nat_numeral TimeSteppingVTK_body_def ex_euler_update half_loop_time [OF h]
        Let_def)
  from TimeStepping_VTK_same_solution
    [where ?nsamples1.0 = 10 and ?nsamples2.0 = 100 and E = ex_env and tend = 2
       and Set = "\<lambda>c u. c" and ?gfu0.0 = "[0, 3]" and invmstar = ex_inv
       and initial_cond = None and ?t0.0 = 0, OF a]
    r1 r2 s1 s2
  have "gfu s1 = gfu s2" by simp
  with r1 r2 s1 s2 show ?thesis by simp
qed

text \<open>
  Without the condition on the sample counts the two functions can part. With the default
  counts 10 and 100, \<open>dt = 1/2\<close>, \<open>t0 = -20\<close> and \<open>tend = -10\<close> the sample intervals
  are \<open>-1\<close> and \<open>0\<close>: \<^verbatim>\<open>TimeStepping\<close> returns after one pass, while
  \<^verbatim>\<open>TimeSteppingVTK\<close> raises \<^verbatim>\<open>ZeroDivisionError\<close> at \<^verbatim>\<open>cnt % sample_int\<close> in its
  first pass.
\<close>

theorem TimeStepping_VTK_nsamples_counterexample:
  "map_option (map_sum id gfu) (TimeStepping ex_env ex_Set [0, 3] ex_inv None (- 20) (- 10) 10)
     = Some (Inr [- 1 / 2, 3])
   \<and> TimeSteppingVTK ex_env ex_Set [0, 3] ex_inv None (- 20) (- 10) 100
     = Some (Inl ZeroDivisionError)"
proof -
  have h: "dt ex_env = 1 / 2" by (simp add: ex_env_def)
  note g = loop_guard_Finite [OF half_threshold(2) [OF h]]
  have si: "sample_interval (- 10) (dt ex_env) 10 = Inr (- 1)"
    "sample_interval (- 10) (dt ex_env) 100 = Inr 0"
    by (simp_all add: sample_interval_def ex_env_def)
  let ?s1 = "\<lparr>cnt = 0, time = Finite (- 20), gfu = [0, 3], printed = [], gfut = [[0, 3]], vtk = []\<rparr>"
  let ?s1' = "\<lparr>cnt = Suc 0, time = Finite (1 / 2), gfu = [- (1 / 2), 3],
               printed = [Finite (- 20)], gfut = [[0, 3], [- (1 / 2), 3]], vtk = []\<rparr>"
  let ?s2 = "\<lparr>cnt = 0, time = Finite (- 20), gfu = [0, 3], printed = [], gfut = [],
              vtk = [(Finite (- 20), [0, 3])]\<rparr>"
  have b1: "TimeStepping_body ex_env ex_inv (- 1) ?s1 = Inr ?s1'"
    by (simp add: TimeStepping_body_def ex_euler_update half_loop_time [OF h])
  have l1': "TimeStepping_loop ex_env ex_inv (- 10) (- 1) ?s1' = Some (Inr ?s1')"
    by (subst TimeStepping_loop.simps) (simp add: g)
  have l1: "TimeStepping_loop ex_env ex_inv (- 10) (- 1) ?s1 = Some (Inr ?s1')"
    by (subst TimeStepping_loop.simps) (simp add: g b1 l1')
  have b2: "TimeSteppingVTK_body ex_env ex_inv 0 ?s2 = Inl ZeroDivisionError"
    by (simp add: TimeSteppingVTK_body_def ex_euler_update Let_def)
  have l2: "TimeSteppingVTK_loop ex_env ex_inv (- 10) 0 ?s2 = Some (Inl ZeroDivisionError)"
    by (subst TimeSteppingVTK_loop.simps) (simp add: g b2)
  show ?thesis using si l1 l2
    by (simp add: TimeStepping_def TimeSteppingVTK_def Let_def)
qed

section \<open>One pass of the surface evolution\<close>

text \<open>
  C5. One pass of the evolution loop solves the combined system over all dofs: on the
  vector space built without Dirichlet regions every dof is free, and (with a factorization
  kernel that really inverts the block) the new position vector \<open>Xh\<close> satisfies
  \<open>M* Xh = l\<close> in every row, with \<open>M*\<close> assembled from the combined form
  \<^verbatim>\<open>X*Y + tau*InnerProduct(grad(X).Trace(), grad(Y).Trace())\<close> and \<open>l\<close> from the position
  form, both on the current deformation. The pass then sets the deformation to
  \<^verbatim>\<open>Xh.vec - Idh.vec\<close>, entry by entry, and advances the time by \<open>tau\<close> and the counter
  by one.
\<close>

theorem mcf_step_solves_all_dofs:
  assumes V: "VectorH1 basis d mesh order [] = Inr V"
    and fd: "inv_free (Minv s) = FreeDofs V"
    and A: "asm_bf P (M_form (tau P)) (dXh s) = Inr A" "height A = ndof V" "width A = ndof V"
    and b: "asm_lf P l_form (dXh s) = Inr b" "length b = ndof V"
    and I: "length (Idh P) = ndof V"
    and sol: "mcf_solver P (free_block A (FreeDofs V)) = Some B"
      "right_inverse (free_block A (FreeDofs V)) B"
  shows "length (FreeDofs V) = ndof V \<and> (\<forall>dof < ndof V. FreeDofs V ! dof)
       \<and> constrained_list (FreeDofs V) = []
       \<and> (\<exists>s'. mcf_body P s = Inr s'
            \<and> M_mat s' = A \<and> l_vec s' = b
            \<and> length (Xh s') = ndof V
            \<and> (\<forall>r < ndof V. (\<Sum>j < ndof V. entry A r j * Xh s' ! j) = b ! r)
            \<and> vsub (Xh s') (Idh P) = Inr (dXh s')
            \<and> length (dXh s') = ndof V
            \<and> (\<forall>k < ndof V. dXh s' ! k = Xh s' ! k - Idh P ! k)
            \<and> t_now s' = t_now s + tau P \<and> i_now s' = i_now s + 1
            \<and> inv_free (Minv s') = FreeDofs V)"
proof -
  let ?n = "ndof V"
  let ?fd = "FreeDofs V"
  from VectorH1_no_dirichlet [OF V] have all: "?fd = replicate ?n True" .
  then have len: "length ?fd = ?n" and free: "\<forall>dof < ?n. ?fd ! dof"
    by (metis length_replicate, metis nth_replicate)
  have nocon: "constrained_list ?fd = []"
    using free len by (simp add: constrained_list_def filter_empty_conv)
  let ?iv = "\<lparr>inv_free = ?fd, inv_fact = B\<rparr>"
  have iv: "Inverse (mcf_solver P) A (inv_free (Minv s)) = Inr ?iv"
    using A sol(1) fd len by (simp add: Inverse_def)
  from apply_inverse_Inr [of b ?iv] b len obtain X where
    X: "apply_inverse ?iv b = Inr X" "length X = ?n" by auto
  have sys: "(\<Sum>j < ?n. entry A r j * X ! j) = b ! r" if "r < ?n" for r
  proof -
    have "(\<Sum>j<length ?fd. entry A r j * X ! j) = b ! r"
      using that free len A sol(2) X(1)
      by (intro free_solve_residual [where iv = ?iv]) simp_all
    then show ?thesis using len by simp
  qed
  let ?d = "map (\<lambda>k. X ! k - Idh P ! k) [0..<length X]"
  have d: "vsub X (Idh P) = Inr ?d" using X I by (simp add: vsub_def)
  from mcf_body_run [OF A(1) b(1) iv X(1) d]
  obtain s' where s': "mcf_body P s = Inr s'" "M_mat s' = A" "l_vec s' = b" "Xh s' = X"
    "dXh s' = ?d" "t_now s' = t_now s + tau P" "i_now s' = i_now s + 1" "Minv s' = ?iv"
    by simp
  have "length (dXh s') = ?n" "\<forall>k < ?n. dXh s' ! k = Xh s' ! k - Idh P ! k"
    "vsub (Xh s') (Idh P) = Inr (dXh s')" "inv_free (Minv s') = ?fd"
    using s' X d by simp_all
  with len free nocon s' X sys show ?thesis by auto
qed

theorem mcf_step_solves_all_dofs_witness:
  "\<exists>s'. mcf_body ex_P ex_s0 = Inr s'
       \<and> 2 * Xh s' ! 0 + 0 * Xh s' ! 1 = 1 \<and> 0 * Xh s' ! 0 + 2 * Xh s' ! 1 = 2
       \<and> dXh s' = [-1/2, -1] \<and> t_now s' = 1/4 \<and> i_now s' = 1"
proof -
  let ?V = "\<lparr>ndof = 2, el_dofs = [[0, 1]], free = [True, True]\<rparr>"
  have fd: "inv_free (Minv ex_s0) = FreeDofs ?V" by (simp add: ex_s0_def FreeDofs_def)
  have A: "height ex_A1 = ndof ?V" "width ex_A1 = ndof ?V" by (simp_all add: ex_A1_def)
  have b: "length [1, 2 :: real] = ndof ?V" by simp
  have I: "length (Idh ex_P) = ndof ?V" by (simp add: ex_P_def)
  have sol: "mcf_solver ex_P (free_block ex_A1 (FreeDofs ?V)) = Some [[1/2, 0], [0, 1/2]]"
    "right_inverse (free_block ex_A1 (FreeDofs ?V)) [[1/2, 0], [0, 1/2]]"
    using ex_block1 ex_solver2 ex_right_inverse2 by (simp_all add: FreeDofs_def ex_P_def)
  from mcf_step_solves_all_dofs [OF ex_V fd ex_asm_bf A ex_asm_lf b I sol] ex_body1
  show ?thesis by (simp add: ex_s1_def)
qed

section \<open>Reassembly before every solve\<close>

text \<open>
  C6. No pass solves with data of an earlier geometry. In every pass the matrix and the
  load vector are assembled from the deformation current at the start of the pass, the
  factorization is renewed from that matrix, and only then comes the solve, in this order in
  the event log; whatever matrix, load vector and factorization the state held before the
  pass has no influence on it. The monitor accepts the events of any number of passes, and
  of every run of the loop that returns; for positive \<open>tau\<close> the loop is a finite number of
  passes.
\<close>

theorem mcf_reassembles_before_solve:
  "(\<forall>s'. mcf_body P s = Inr s' \<longrightarrow>
        asm_bf P (M_form (tau P)) (dXh s) = Inr (M_mat s')
      \<and> asm_lf P l_form (dXh s) = Inr (l_vec s')
      \<and> Inverse (mcf_solver P) (M_mat s') (inv_free (Minv s)) = Inr (Minv s')
      \<and> apply_inverse (Minv s') (l_vec s') = Inr (Xh s')
      \<and> events s' = events s @ [Print (t_now s), AssembleM (M_form (tau P)) (dXh s),
                                 AssembleL l_form (dXh s), UpdateInv, Solve,
                                 SetDeformation (dXh s')]
                               @ (if i_now s mod 10 = 0 then [Redraw] else []))
   \<and> mcf_body P (s\<lparr>M_mat := A0, l_vec := b0, Minv := (Minv s)\<lparr>inv_fact := B0\<rparr>\<rparr>) = mcf_body P s
   \<and> (\<forall>k s'. iterate k (mcf_body P) s = Inr s' \<longrightarrow>
         (\<exists>es. events s' = events s @ es
              \<and> monitor_run (tau P) (stale (dXh s)) es = Some (stale (dXh s'))))
   \<and> (\<forall>s'. mcf_loop P s = Some (Inr s') \<longrightarrow>
         (\<exists>es. events s' = events s @ es
              \<and> monitor_run (tau P) (stale (dXh s)) es = Some (stale (dXh s'))))
   \<and> (0 < tau P \<longrightarrow> (\<exists>k. mcf_loop P s = Some (iterate k (mcf_body P) s)))"
proof (intro conjI allI impI)
  fix s' assume b: "mcf_body P s = Inr s'"
  from mcf_body_Inr [OF b]
  show "asm_bf P (M_form (tau P)) (dXh s) = Inr (M_mat s')"
    "asm_lf P l_form (dXh s) = Inr (l_vec s')"
    "Inverse (mcf_solver P) (M_mat s') (inv_free (Minv s)) = Inr (Minv s')"
    "apply_inverse (Minv s') (l_vec s') = Inr (Xh s')"
    "events s' = events s @ [Print (t_now s), AssembleM (M_form (tau P)) (dXh s),
                                 AssembleL l_form (dXh s), UpdateInv, Solve,
                                 SetDeformation (dXh s')]
                               @ (if i_now s mod 10 = 0 then [Redraw] else [])"
    by auto
next
  show "mcf_body P (s\<lparr>M_mat := A0, l_vec := b0, Minv := (Minv s)\<lparr>inv_fact := B0\<rparr>\<rparr>) = mcf_body P s"
    by (rule mcf_body_stale)
next
  fix k s' assume "iterate k (mcf_body P) s = Inr s'"
  then show "\<exists>es. events s' = events s @ es
              \<and> monitor_run (tau P) (stale (dXh s)) es = Some (stale (dXh s'))"
    by (rule iterate_monitor)
next
  fix s' assume "mcf_loop P s = Some (Inr s')"
  from mcf_loop_monitor [OF this]
  show "\<exists>es. events s' = events s @ es
              \<and> monitor_run (tau P) (stale (dXh s)) es = Some (stale (dXh s'))"
    by simp
next
  assume "0 < tau P"
  then show "\<exists>k. mcf_loop P s = Some (iterate k (mcf_body P) s)" by (rule mcf_loop_iterate)
qed

theorem mcf_reassembles_before_solve_witness:
  "mcf_body ex_P ex_s0 = Inr ex_s1
   \<and> asm_bf ex_P (M_form (tau ex_P)) (dXh ex_s0) = Inr (M_mat ex_s1)
   \<and> asm_lf ex_P l_form (dXh ex_s0) = Inr (l_vec ex_s1)
   \<and> apply_inverse (Minv ex_s1) (l_vec ex_s1) = Inr (Xh ex_s1)
   \<and> monitor_run (tau ex_P) (stale (dXh ex_s0))
        [Print 0, AssembleM (M_form (1/4)) [0, 0], AssembleL l_form [0, 0],
         UpdateInv, Solve, SetDeformation [-1/2, -1], Redraw] = Some (stale (dXh ex_s1))
   \<and> (\<exists>k. mcf_loop ex_P ex_s0 = Some (iterate k (mcf_body ex_P) ex_s0))"
proof -
  have pos: "0 < tau ex_P" by (simp add: ex_P_def)
  have it: "iterate 1 (mcf_body ex_P) ex_s0 = Inr ex_s1" by (simp add: ex_body1)
  have ev: "events ex_s1 = events ex_s0 @ [Print 0, AssembleM (M_form (1/4)) [0, 0],
         AssembleL l_form [0, 0], UpdateInv, Solve, SetDeformation [-1/2, -1], Redraw]"
    by (simp add: ex_s0_def ex_s1_def)
  from mcf_reassembles_before_solve [of ex_P ex_s0] ex_body1 it pos
  have 1: "asm_bf ex_P (M_form (tau ex_P)) (dXh ex_s0) = Inr (M_mat ex_s1)"
    and 2: "asm_lf ex_P l_form (dXh ex_s0) = Inr (l_vec ex_s1)"
    and 3: "apply_inverse (Minv ex_s1) (l_vec ex_s1) = Inr (Xh ex_s1)"
    and 4: "\<exists>es. events ex_s1 = events ex_s0 @ es
              \<and> monitor_run (tau ex_P) (stale (dXh ex_s0)) es = Some (stale (dXh ex_s1))"
    and 5: "\<exists>k. mcf_loop ex_P ex_s0 = Some (iterate k (mcf_body ex_P) ex_s0)"
    by blast+
  from 4 ev have "monitor_run (tau ex_P) (stale (dXh ex_s0))
        [Print 0, AssembleM (M_form (1/4)) [0, 0], AssembleL l_form [0, 0],
         UpdateInv, Solve, SetDeformation [-1/2, -1], Redraw] = Some (stale (dXh ex_s1))"
    by auto
  with ex_body1 1 2 3 5 show ?thesis by blast
qed

section \<open>Free and constrained dofs\<close>

text \<open>
  C7. For a fixed mesh and order the space has the same number of dofs with and without
  Dirichlet regions. \<^verbatim>\<open>FreeDofs\<close> has one flag per dof, so the free and the constrained
  dofs together are all dofs and no dof is both; a dof is constrained exactly when it lies
  on a facet of a named region, and without Dirichlet regions every dof is free.
\<close>

theorem dofs_split_free_constrained:
  "\<exists>fs2. H1 basis mesh order [] = Inr fs2
     \<and> length (FreeDofs fs2) = ndof fs2
     \<and> (\<forall>dof < ndof fs2. FreeDofs fs2 ! dof)
     \<and> constrained_list (FreeDofs fs2) = []
     \<and> ((\<forall>r \<in> set dirichlet. r \<in> set (map fst (facets mesh)))
          \<longrightarrow> (\<exists>fes. H1 basis mesh order dirichlet = Inr fes))
     \<and> (\<forall>fes. H1 basis mesh order dirichlet = Inr fes \<longrightarrow>
           ndof fes = ndof fs2
         \<and> length (FreeDofs fes) = ndof fes
         \<and> set (free_list (FreeDofs fes)) \<union> set (constrained_list (FreeDofs fes)) = {..<ndof fes}
         \<and> set (free_list (FreeDofs fes)) \<inter> set (constrained_list (FreeDofs fes)) = {}
         \<and> (\<forall>dof < ndof fes. FreeDofs fes ! dof
               \<longleftrightarrow> dof \<notin> set (constrained_dofs mesh (basis mesh order) dirichlet)))"
proof -
  let ?L = "basis mesh order"
  let ?fs2 = "\<lparr>ndof = lay_ndof ?L, el_dofs = lay_el_dofs ?L, free = replicate (lay_ndof ?L) True\<rparr>"
  have a: "H1 basis mesh order [] = Inr ?fs2" by (rule H1_no_dirichlet)
  have b: "length (FreeDofs ?fs2) = ndof ?fs2" "\<forall>dof < ndof ?fs2. FreeDofs ?fs2 ! dof"
    "constrained_list (FreeDofs ?fs2) = []"
    by (simp_all add: FreeDofs_def constrained_list_def filter_empty_conv)
  have c: "(\<forall>r \<in> set dirichlet. r \<in> set (map fst (facets mesh)))
          \<longrightarrow> (\<exists>fes. H1 basis mesh order dirichlet = Inr fes)"
    by (auto simp: H1_def Let_def)
  have d: "ndof fes = ndof ?fs2
         \<and> length (FreeDofs fes) = ndof fes
         \<and> set (free_list (FreeDofs fes)) \<union> set (constrained_list (FreeDofs fes)) = {..<ndof fes}
         \<and> set (free_list (FreeDofs fes)) \<inter> set (constrained_list (FreeDofs fes)) = {}
         \<and> (\<forall>dof < ndof fes. FreeDofs fes ! dof
               \<longleftrightarrow> dof \<notin> set (constrained_dofs mesh ?L dirichlet))"
    if "H1 basis mesh order dirichlet = Inr fes" for fes
  proof -
    from that have fes: "fes = \<lparr>ndof = lay_ndof ?L, el_dofs = lay_el_dofs ?L,
        free = map (\<lambda>d. d \<notin> set (constrained_dofs mesh ?L dirichlet)) [0..<lay_ndof ?L]\<rparr>"
      by (auto simp: H1_def Let_def split: if_splits)
    have len: "length (FreeDofs fes) = ndof fes" by (simp add: fes FreeDofs_def)
    show ?thesis
      using set_free_constrained [of "FreeDofs fes"] len
      by (simp add: fes FreeDofs_def)
  qed
  from a b c d show ?thesis by blast
qed

theorem dofs_split_free_constrained_witness:
  "\<exists>fs2 fes. H1 ex_basis ex_mesh 2 [] = Inr fs2 \<and> H1 ex_basis ex_mesh 2 [''left'', ''right''] = Inr fes
     \<and> ndof fes = ndof fs2 \<and> length (FreeDofs fes) = 4
     \<and> set (free_list (FreeDofs fes)) \<union> set (constrained_list (FreeDofs fes)) = {..<4}
     \<and> set (free_list (FreeDofs fes)) \<inter> set (constrained_list (FreeDofs fes)) = {}"
proof -
  have v: "\<forall>r \<in> set [''left'', ''right'']. r \<in> set (map fst (facets ex_mesh))"
    by (simp add: ex_mesh_def)
  have n: "H1 ex_basis ex_mesh 2 [''left'', ''right''] = Inr fes \<Longrightarrow> ndof fes = 4" for fes
    by (auto simp: H1_def Let_def ex_basis_def split: if_splits)
  from dofs_split_free_constrained [of ex_basis ex_mesh 2 "[''left'', ''right'']"] v n
  show ?thesis by (metis (no_types, lifting))
qed

end
